theory Spec2Isabelle
  imports Complex_Main "HOL-Library.Multiset"
begin

section \<open>Strings of the source\<close>

text \<open>
  A JavaScript string is a sequence of code units; the model keeps the code units
  0 to 255 (\<open>char\<close>), which hold every character the LRC grammar and the fence
  markers are made of. In that range the white space of \<open>String.prototype.trim\<close>
  and of the regular-expression class \<open>\s\<close> is TAB, LF, VT, FF, CR, SPACE and
  NBSP; the line terminators, which the regular-expression dot does not match, are
  LF and CR; \<open>\d\<close> is an ASCII digit.
\<close>

definition is_space :: "char \<Rightarrow> bool" where
  "is_space c \<longleftrightarrow>
     c \<in> set [CHR 0x09, CHR 0x0A, CHR 0x0B, CHR 0x0C, CHR 0x0D, CHR 0x20, CHR 0xA0]"

definition line_terminator :: "char \<Rightarrow> bool" where
  "line_terminator c \<longleftrightarrow> c = CHR 0x0A \<or> c = CHR 0x0D"

definition is_digit :: "char \<Rightarrow> bool" where
  "is_digit c \<longleftrightarrow> c \<in> set ''0123456789''"

definition trim :: "string \<Rightarrow> string" where
  \<comment> \<open>\<open>s.trim()\<close>\<close>
  "trim s = rev (dropWhile is_space (rev (dropWhile is_space s)))"

fun split_on :: "char \<Rightarrow> string \<Rightarrow> string list" where
  \<comment> \<open>\<open>s.split(c)\<close> for a separator of one character; the result is never empty, so
      the first branch of the case is never taken\<close>
  "split_on c [] = [[]]"
| "split_on c (x # xs) =
     (if x = c then [] # split_on c xs
      else (case split_on c xs of
              [] \<Rightarrow> [[x]]
            | w # ws \<Rightarrow> (x # w) # ws))"

fun join_with :: "char \<Rightarrow> string list \<Rightarrow> string" where
  \<comment> \<open>\<open>xs.join(c)\<close>\<close>
  "join_with c [] = []"
| "join_with c [x] = x"
| "join_with c (x # y # ys) = x @ c # join_with c (y # ys)"

definition digit_val :: "char \<Rightarrow> nat" where
  "digit_val c = of_char c - 48"

definition dec_value :: "string \<Rightarrow> nat" where
  "dec_value ds = foldl (\<lambda>a c. 10 * a + digit_val c) 0 ds"

definition parseInt10 :: "string \<Rightarrow> int option" where
  \<comment> \<open>\<open>parseInt(s, 10)\<close>: leading white space, an optional sign, then the longest
      run of digits; \<open>None\<close> stands for NaN (no digit there).\<close>
  "parseInt10 s =
     (let t = dropWhile is_space s;
          neg = (t \<noteq> [] \<and> hd t = CHR ''-'');
          u = (if t \<noteq> [] \<and> (hd t = CHR ''-'' \<or> hd t = CHR ''+'') then tl t else t);
          ds = takeWhile is_digit u
      in if ds = [] then None
         else Some (if neg then - int (dec_value ds) else int (dec_value ds)))"

section \<open>The LRC codec (src/App.jsx, parseLrc and formatLrc)\<close>

record LyricLine =
  timestamp :: rat
  text' :: string
  lrcTime :: string

text \<open>
  \<open>timestamp\<close> is a JavaScript number in the source. The model keeps the exact
  rational value of \<open>mm * 60 + ss + f / divisor\<close>; the source rounds the quotient and
  the sum to doubles. The values are below 6040 and two different ones are at least
  a thousandth apart, the roundings move a value by less than \<open>2 ^ -40\<close> and are
  monotone, and equal values have the same whole part and the same exact quotient, whose
  correct rounding is then the same: the doubles of the source are equal, and ordered, as
  the rationals of the model are. A run of the source has two
  outcomes that no rational stands for: a \<open>TypeError\<close> (a method called on
  \<open>undefined\<close>) and a NaN timestamp; the model returns them as values of
  \<open>failure\<close>.
\<close>

datatype failure = TypeError | NaN_timestamp

subsection \<open>The regular expression \<open>/(\[\d{2}:\d{2}(?:\.\d{1,3})?\])(.*)/\<close>\<close>

fun frac3 :: "string \<Rightarrow> nat option" where
  \<comment> \<open>\<open>\.\d{3}\]\<close> at the head of the string: the number of characters matched\<close>
  "frac3 (p # a # b # c # q # r) =
     (if p = CHR ''.'' \<and> is_digit a \<and> is_digit b \<and> is_digit c \<and> q = CHR '']''
      then Some 5 else None)"
| "frac3 _ = None"

fun frac2 :: "string \<Rightarrow> nat option" where
  \<comment> \<open>\<open>\.\d{2}\]\<close>\<close>
  "frac2 (p # a # b # q # r) =
     (if p = CHR ''.'' \<and> is_digit a \<and> is_digit b \<and> q = CHR '']''
      then Some 4 else None)"
| "frac2 _ = None"

fun frac1 :: "string \<Rightarrow> nat option" where
  \<comment> \<open>\<open>\.\d{1}\]\<close>\<close>
  "frac1 (p # a # q # r) =
     (if p = CHR ''.'' \<and> is_digit a \<and> q = CHR '']'' then Some 3 else None)"
| "frac1 _ = None"

definition match_close :: "string \<Rightarrow> nat option" where
  \<comment> \<open>\<open>(?:\.\d{1,3})?\]\<close> at the head of \<open>s\<close>: the greedy quantifiers try three
      digits, then two, then one, then the group left out.\<close>
  "match_close s =
     (case frac3 s of
        Some n \<Rightarrow> Some n
      | None \<Rightarrow>
         (case frac2 s of
            Some n \<Rightarrow> Some n
          | None \<Rightarrow>
             (case frac1 s of
                Some n \<Rightarrow> Some n
              | None \<Rightarrow> if s \<noteq> [] \<and> hd s = CHR '']'' then Some 1 else None)))"

fun match_tag :: "string \<Rightarrow> (string \<times> string) option" where
  \<comment> \<open>group 1 at the head of the string: the tag and what follows it\<close>
  "match_tag (b # m1 # m2 # c # s1 # s2 # r) =
     (if b = CHR ''['' \<and> is_digit m1 \<and> is_digit m2 \<and> c = CHR '':''
         \<and> is_digit s1 \<and> is_digit s2
      then (case match_close r of
              None \<Rightarrow> None
            | Some n \<Rightarrow> Some (b # m1 # m2 # c # s1 # s2 # take n r, drop n r))
      else None)"
| "match_tag _ = None"

definition rest_of_line :: "string \<Rightarrow> string" where
  \<comment> \<open>\<open>(.*)\<close> at the head of \<open>r\<close>: the longest run of characters that are no line
      terminators\<close>
  "rest_of_line r = takeWhile (\<lambda>x. \<not> line_terminator x) r"

fun lineRegex_exec :: "string \<Rightarrow> (string \<times> string) option" where
  \<comment> \<open>\<open>s.match(lineRegex)\<close>: the leftmost match; the result is (match[1], match[2]),
      group 2 being the longest run of characters that are no line terminators.\<close>
  "lineRegex_exec [] = None"
| "lineRegex_exec (c # cs) =
     (case match_tag (c # cs) of
        Some (tag, r) \<Rightarrow> Some (tag, rest_of_line r)
      | None \<Rightarrow> lineRegex_exec cs)"

subsection \<open>parseLrc\<close>

definition to_seconds :: "string \<Rightarrow> failure + rat" where
  \<comment> \<open>lines 51 to 61: from match[1] to timeInSeconds\<close>
  "to_seconds m1 =
     (let timestampStr = butlast (tl m1) in
      case split_on CHR '':'' timestampStr of
        minutes # rest # _ \<Rightarrow>
          (case split_on CHR ''.'' rest of
             [] \<Rightarrow> Inl NaN_timestamp
           | seconds # others \<Rightarrow>
               (let milliseconds = (case others of [] \<Rightarrow> None | x # _ \<Rightarrow> Some x);
                    ms = (case milliseconds of None \<Rightarrow> ''0''
                          | Some x \<Rightarrow> if x = [] then ''0'' else x);
                    divisor = (if map_option length milliseconds = Some 3
                               then 1000 else 100 :: rat)
                in case (parseInt10 minutes, parseInt10 seconds, parseInt10 ms) of
                     (Some m, Some s, Some f) \<Rightarrow>
                       Inr (of_int (m * 60) + of_int s + of_int f / divisor)
                   | _ \<Rightarrow> Inl NaN_timestamp))
      | _ \<Rightarrow> Inl TypeError)"

definition convert_line :: "string \<Rightarrow> failure + LyricLine option" where
  \<comment> \<open>the function mapped over the lines; \<open>None\<close> is \<open>null\<close>\<close>
  "convert_line line =
     (case lineRegex_exec (trim line) of
        None \<Rightarrow> Inr None
      | Some (m1, m2) \<Rightarrow>
          (case to_seconds m1 of
             Inl e \<Rightarrow> Inl e
           | Inr timeInSeconds \<Rightarrow>
               Inr (Some \<lparr>timestamp = timeInSeconds, text' = trim m2, lrcTime = m1\<rparr>)))"

fun map_lines :: "string list \<Rightarrow> failure + LyricLine option list" where
  \<comment> \<open>\<open>lines.map(...)\<close>: the first exception ends the call\<close>
  "map_lines [] = Inr []"
| "map_lines (l # ls) =
     (case convert_line l of
        Inl e \<Rightarrow> Inl e
      | Inr v \<Rightarrow> (case map_lines ls of Inl e \<Rightarrow> Inl e | Inr vs \<Rightarrow> Inr (v # vs)))"

fun filter_Boolean :: "'a option list \<Rightarrow> 'a list" where
  \<comment> \<open>\<open>.filter(Boolean)\<close> on an array of objects and \<open>null\<close>s\<close>
  "filter_Boolean [] = []"
| "filter_Boolean (None # xs) = filter_Boolean xs"
| "filter_Boolean (Some x # xs) = x # filter_Boolean xs"

definition sort_lines :: "LyricLine list \<Rightarrow> LyricLine list" where
  \<comment> \<open>\<open>.sort((a, b) => a.timestamp - b.timestamp)\<close>: the sort of ECMAScript is
      stable, and a stable sort by a key has one result, the one of insertion sort.\<close>
  "sort_lines ls = sort_key timestamp ls"

definition parseLrc :: "string option \<Rightarrow> failure + LyricLine list" where
  \<comment> \<open>the argument \<open>None\<close> is \<open>null\<close> or \<open>undefined\<close>\<close>
  "parseLrc lrcContent =
     (case lrcContent of
        None \<Rightarrow> Inr []
      | Some s \<Rightarrow>
          if s = [] then Inr []
          else (case map_lines (split_on CHR 0x0A s) of
                  Inl e \<Rightarrow> Inl e
                | Inr vs \<Rightarrow> Inr (sort_lines (filter_Boolean vs))))"

subsection \<open>formatLrc\<close>

definition formatLrc :: "LyricLine list \<Rightarrow> string" where
  "formatLrc parsedLines =
     join_with CHR 0x0A (map (\<lambda>line. lrcTime line @ text' line) parsedLines)"

section \<open>The LRC grammar of the specification\<close>

text \<open>
  The definitions of this section follow the words of the specification, not the code:
  a tag is \<open>[MM:SS]\<close> or \<open>[MM:SS.f]\<close> with one to three digits \<open>f\<close>, and it denotes
  \<open>MM * 60 + SS + f / divisor\<close> seconds, the divisor being 1000 for three digits and 100
  otherwise.
\<close>

definition tag_chars :: "char \<Rightarrow> char \<Rightarrow> char \<Rightarrow> char \<Rightarrow> string \<Rightarrow> string" where
  "tag_chars m1 m2 s1 s2 fs =
     CHR ''['' # m1 # m2 # CHR '':'' # s1 # s2 # (if fs = [] then [] else CHR ''.'' # fs) @ '']''"

definition is_tag :: "string \<Rightarrow> bool" where
  "is_tag t \<longleftrightarrow>
     (\<exists>m1 m2 s1 s2 fs. is_digit m1 \<and> is_digit m2 \<and> is_digit s1 \<and> is_digit s2
        \<and> list_all is_digit fs \<and> length fs \<le> 3 \<and> t = tag_chars m1 m2 s1 s2 fs)"

definition contains_tag :: "string \<Rightarrow> bool" where
  \<comment> \<open>a tag stands somewhere in the line\<close>
  "contains_tag s \<longleftrightarrow> (\<exists>p t r. s = p @ t @ r \<and> is_tag t)"

definition digit_char :: "nat \<Rightarrow> char" where
  "digit_char d = ''0123456789'' ! d"

fun pad_digits :: "nat \<Rightarrow> nat \<Rightarrow> string" where
  \<comment> \<open>the last \<open>k\<close> decimal digits of \<open>n\<close>, the most significant first\<close>
  "pad_digits 0 n = []"
| "pad_digits (Suc k) n = pad_digits k (n div 10) @ [digit_char (n mod 10)]"

definition tag_of :: "nat \<Rightarrow> nat \<Rightarrow> nat \<Rightarrow> nat \<Rightarrow> string" where
  \<comment> \<open>the tag of \<open>mm\<close> minutes, \<open>ss\<close> seconds and the fraction \<open>f\<close> written with \<open>k\<close>
      digits (\<open>k = 0\<close>: no fractional part)\<close>
  "tag_of mm ss k f =
     ''['' @ pad_digits 2 mm @ '':'' @ pad_digits 2 ss
       @ (if k = 0 then [] else ''.'' @ pad_digits k f) @ '']''"

definition tag_seconds :: "nat \<Rightarrow> nat \<Rightarrow> nat \<Rightarrow> nat \<Rightarrow> rat" where
  "tag_seconds mm ss k f =
     of_nat (mm * 60) + of_nat ss + of_nat f / (if k = 3 then 1000 else 100)"

definition tagged_line :: "string \<Rightarrow> bool" where
  \<comment> \<open>a recognizable tagged line: the line, white space around it apart, begins with a
      tag\<close>
  "tagged_line l \<longleftrightarrow> (\<exists>t r. trim l = t @ r \<and> is_tag t)"

definition line_tag :: "string \<Rightarrow> string" where
  \<comment> \<open>the tag of a tagged line: up to the first closing bracket\<close>
  "line_tag l = takeWhile (\<lambda>c. c \<noteq> CHR '']'') (trim l) @ '']''"

definition line_text :: "string \<Rightarrow> string" where
  \<comment> \<open>the text of a tagged line: what follows the tag, trimmed\<close>
  "line_text l = trim (tl (dropWhile (\<lambda>c. c \<noteq> CHR '']'') (trim l)))"

definition tag_value :: "string \<Rightarrow> rat" where
  \<comment> \<open>the seconds a tag denotes: \<open>MM * 60 + SS + f / divisor\<close>\<close>
  "tag_value t =
     (let mm = dec_value (take 2 (drop 1 t));
          ss = dec_value (take 2 (drop 4 t));
          fs = takeWhile is_digit (drop 7 t)
      in of_nat (mm * 60) + of_nat ss
           + of_nat (dec_value fs) / (if length fs = 3 then 1000 else 100))"

definition valid_lrc :: "string \<Rightarrow> bool" where
  \<comment> \<open>valid raw LRC text: every line begins with its tag or holds no tag at all, and
      holds no carriage return but at its end\<close>
  "valid_lrc T \<longleftrightarrow>
     list_all (\<lambda>l. (tagged_line l \<or> \<not> contains_tag l) \<and> CHR 0x0D \<notin> set (trim l))
       (split_on CHR 0x0A T)"

definition line_entry :: "string \<Rightarrow> LyricLine" where
  \<comment> \<open>the entry the specification gives a tagged line\<close>
  "line_entry l =
     \<lparr>timestamp = tag_value (line_tag l), text' = line_text l, lrcTime = line_tag l\<rparr>"

section \<open>An invariant of the lines of parseLrc\<close>

definition parsed_line :: "LyricLine \<Rightarrow> bool" where
  \<comment> \<open>what holds of every line that \<open>parseLrc\<close> returns: \<open>lrcTime\<close> is a tag,
      \<open>timestamp\<close> is what the code reads from that tag, and \<open>text\<close> is trimmed and
      holds no line terminator\<close>
  "parsed_line l \<longleftrightarrow>
     is_tag (lrcTime l) \<and> to_seconds (lrcTime l) = Inr (timestamp l)
       \<and> trim (text' l) = text' l \<and> list_all (\<lambda>c. \<not> line_terminator c) (text' l)"

section \<open>The transcription client (src/App.jsx, transcribeAudio)\<close>

text \<open>
  The endpoint is a parameter: \<open>fetch a m i\<close> is what the call of \<open>fetch\<close> in attempt
  \<open>i\<close> does for the audio \<open>a\<close> of MIME type \<open>m\<close>, and \<open>rnd i\<close> is the value of
  \<open>Math.random()\<close> in attempt \<open>i\<close> (each attempt calls either at most once). Of a body
  the code reads \<open>error?.message\<close> and \<open>candidates?.[0]?.content?.parts?.[0]?.text\<close>,
  \<open>None\<close> standing for \<open>undefined\<close>; \<open>Unreadable m\<close> is a body at which
  \<open>response.json()\<close>, or the read of \<open>.error\<close> of a body that is \<open>null\<close>, throws an
  error of message \<open>m\<close>. The effects of a call are its requests and the delays it asks
  \<open>setTimeout\<close> for, in milliseconds. The fixed parts of the request (the address, the
  two prompts) are left out; \<open>maxRetries\<close> is 5 when the caller gives none.
\<close>

datatype body = Unreadable string | Json "string option" "string option"

datatype fetch_result = Rejected string | Response nat body

datatype outcome = Returned string | Thrown string

datatype event = Request nat | Wait rat

datatype step = Continue rat | Return string | Throw string

fun show_nat :: "nat \<Rightarrow> string" where
  \<comment> \<open>a number in a template literal\<close>
  "show_nat n =
     (if n < 10 then [digit_char n] else show_nat (n div 10) @ [digit_char (n mod 10)])"

declare show_nat.simps [simp del]

definition backticks :: string where
  "backticks = [CHR 0x60, CHR 0x60, CHR 0x60]"

definition fence_at :: "string \<Rightarrow> string option" where
  \<comment> \<open>a match of \<open>/```lrc\s*|\s*```/\<close> at the head of the string: what follows the
      match. The first alternative is tried first; \<open>\s*\<close> takes all the white space
      there is, and giving some of it back cannot help, a backtick being no white space.\<close>
  "fence_at s =
     (if take 6 s = backticks @ ''lrc'' then Some (dropWhile is_space (drop 6 s))
      else if take 3 (dropWhile is_space s) = backticks
      then Some (drop 3 (dropWhile is_space s))
      else None)"

function strip_fences :: "string \<Rightarrow> string" where
  \<comment> \<open>\<open>text.replace(/```lrc\s*|\s*```/g, '')\<close>: the matches are found from left to
      right, each search starting where the match before ended\<close>
  "strip_fences [] = []"
| "strip_fences (c # cs) =
     (case fence_at (c # cs) of
        Some r \<Rightarrow> strip_fences r
      | None \<Rightarrow> c # strip_fences cs)"
  by pat_completeness auto
termination
proof (relation "measure length")
  show "wf (measure length)" by simp
next
  fix c :: char and cs r :: string
  assume a: "fence_at (c # cs) = Some r"
  let ?s = "c # cs"
  have d: "length (dropWhile is_space xs) \<le> length xs" for xs :: string
    by (rule length_dropWhile_le)
  have "length r < length ?s"
  proof (cases "take 6 ?s = backticks @ ''lrc''")
    case True
    then have "length (take 6 ?s) = 6" by (simp add: backticks_def)
    then have "6 \<le> length ?s" by (simp add: min_def split: if_splits)
    moreover have "r = dropWhile is_space (drop 6 ?s)"
      using a True by (simp add: fence_at_def)
    ultimately show ?thesis
      using d[of "drop 6 ?s"] by simp
  next
    case False
    then have t: "take 3 (dropWhile is_space ?s) = backticks"
      and r: "r = drop 3 (dropWhile is_space ?s)"
      using a by (simp_all add: fence_at_def split: if_splits)
    from t have "length (take 3 (dropWhile is_space ?s)) = 3" by (simp add: backticks_def)
    then have "3 \<le> length (dropWhile is_space ?s)" by (simp add: min_def split: if_splits)
    then show ?thesis
      using d[of ?s] by (simp add: r)
  qed
  then show "(r, c # cs) \<in> measure length" by simp
next
  fix c :: char and cs :: string
  show "(cs, c # cs) \<in> measure length" by simp
qed

definition default_message :: "nat \<Rightarrow> string" where
  "default_message status = ''API request failed with status '' @ show_nat status"

definition empty_message :: string where
  "empty_message = ''Received an empty response from the AI model.''"

definition failed_after :: "nat \<Rightarrow> string \<Rightarrow> string" where
  "failed_after maxRetries m =
     ''Failed to transcribe audio after '' @ show_nat maxRetries @ '' attempts: '' @ m"

definition response_ok :: "nat \<Rightarrow> bool" where
  \<comment> \<open>\<open>response.ok\<close>\<close>
  "response_ok status \<longleftrightarrow> 200 \<le> status \<and> status \<le> 299"

definition try_block :: "fetch_result \<Rightarrow> rat \<Rightarrow> nat \<Rightarrow> nat \<Rightarrow> step" where
  \<comment> \<open>the body of the \<open>try\<close> in attempt \<open>i\<close>: it ends in \<open>continue\<close> after a delay, in
      \<open>return\<close>, or in an exception\<close>
  "try_block res r maxRetries i =
     (case res of
        Rejected m \<Rightarrow> Throw m
      | Response status b \<Rightarrow>
          if status = 429 \<and> i < maxRetries - 1 then Continue (2 ^ i * 1000 + r * 1000)
          else if \<not> response_ok status then
            (case b of
               Unreadable m \<Rightarrow> Throw m
             | Json err txt \<Rightarrow>
                 Throw (case err of
                          None \<Rightarrow> default_message status
                        | Some m \<Rightarrow> if m = [] then default_message status else m))
          else
            (case b of
               Unreadable m \<Rightarrow> Throw m
             | Json err txt \<Rightarrow>
                 (case txt of
                    None \<Rightarrow> Throw empty_message
                  | Some t \<Rightarrow>
                      if t = [] then Throw empty_message
                      else Return (trim (strip_fences t)))))"

function attempts ::
  "(nat \<Rightarrow> fetch_result) \<Rightarrow> (nat \<Rightarrow> rat) \<Rightarrow> nat \<Rightarrow> nat \<Rightarrow> outcome \<times> event list" where
  \<comment> \<open>the \<open>for\<close> loop from attempt \<open>i\<close> on: the outcome and the effects\<close>
  "attempts fetch rnd maxRetries i =
     (if i < maxRetries then
        (case try_block (fetch i) (rnd i) maxRetries i of
           Continue delay \<Rightarrow>
             (case attempts fetch rnd maxRetries (i + 1) of
                (out, tr) \<Rightarrow> (out, Request i # Wait delay # tr))
         | Return cleanedText \<Rightarrow> (Returned cleanedText, [Request i])
         | Throw m \<Rightarrow>
             if i = maxRetries - 1 then (Thrown (failed_after maxRetries m), [Request i])
             else (case attempts fetch rnd maxRetries (i + 1) of
                     (out, tr) \<Rightarrow> (out, Request i # tr)))
      else (Thrown ''Unknown error during transcription process.'', []))"
  by pat_completeness auto
termination
  by (relation "measure (\<lambda>(fetch, rnd, maxRetries, i). maxRetries - i)") auto

declare attempts.simps [simp del]

definition transcribeAudio ::
  "(string \<Rightarrow> string \<Rightarrow> nat \<Rightarrow> fetch_result) \<Rightarrow> (nat \<Rightarrow> rat) \<Rightarrow> string \<Rightarrow> string \<Rightarrow> nat
     \<Rightarrow> outcome \<times> event list" where
  "transcribeAudio fetch rnd base64AudioData mimeType maxRetries =
     attempts (fetch base64AudioData mimeType) rnd maxRetries 0"

definition rate_limited :: "fetch_result \<Rightarrow> bool" where
  \<comment> \<open>the response carries the status 429\<close>
  "rate_limited res \<longleftrightarrow> (case res of Response status b \<Rightarrow> status = 429 | Rejected m \<Rightarrow> False)"

fun waits_ok :: "(nat \<Rightarrow> fetch_result) \<Rightarrow> nat \<Rightarrow> event list \<Rightarrow> bool" where
  \<comment> \<open>the delays of a trace: a delay follows the request of attempt \<open>i\<close> exactly when
      that request was answered with 429 and an attempt remains, and it is
      \<open>2 ^ i * 1000\<close> plus less than 1000\<close>
  "waits_ok f n [] = True"
| "waits_ok f n (Wait d # es) = False"
| "waits_ok f n (Request i # Wait d # es) =
     (rate_limited (f i) \<and> i < n - 1 \<and> 2 ^ i * 1000 \<le> d \<and> d < 2 ^ i * 1000 + 1000
        \<and> waits_ok f n es)"
| "waits_ok f n (Request i # es) = (\<not> (rate_limited (f i) \<and> i < n - 1) \<and> waits_ok f n es)"

fun has_fence :: "string \<Rightarrow> bool" where
  \<comment> \<open>three backticks in a row stand somewhere in the string\<close>
  "has_fence [] = False"
| "has_fence (c # cs) = (take 3 (c # cs) = backticks \<or> has_fence cs)"

definition succeeds :: "fetch_result \<Rightarrow> bool" where
  \<comment> \<open>a response that ends the call with a result: the status is OK and the body holds
      a text that is not empty\<close>
  "succeeds res \<longleftrightarrow>
     (case res of
        Rejected m \<Rightarrow> False
      | Response status b \<Rightarrow>
          (case b of
             Unreadable m \<Rightarrow> False
           | Json err txt \<Rightarrow>
               (case txt of None \<Rightarrow> False | Some t \<Rightarrow> response_ok status \<and> t \<noteq> [])))"



subsection \<open>Endpoints for the examples\<close>

definition error_then_text ::
  "nat \<Rightarrow> string option \<Rightarrow> string \<Rightarrow> string \<Rightarrow> string \<Rightarrow> nat \<Rightarrow> fetch_result" where
  \<comment> \<open>an endpoint that answers the first request with the status \<open>st\<close> and the error
      message \<open>msg\<close>, and every later request with the status 200 and the text
      \<open>txt\<close>\<close>
  "error_then_text st msg txt a m i =
     (if i = 0 then Response st (Json msg None) else Response 200 (Json None (Some txt)))"



definition no_jitter :: "nat \<Rightarrow> rat" where
  "no_jitter i = 0"

section \<open>Lemmas\<close>

subsection \<open>Strings, tags and the search of the regular expression\<close>

lemma split_on_nonempty: "split_on c s \<noteq> []"
  by (induction s) (auto split: list.splits)

lemma split_on_no_sep: "c \<notin> set s \<Longrightarrow> split_on c s = [s]"
  by (induction s) auto

lemma split_on_append: "c \<notin> set a \<Longrightarrow> split_on c (a @ c # b) = a # split_on c b"
  by (induction a) auto

lemma split_on_join:
  "xs \<noteq> [] \<Longrightarrow> (\<And>x. x \<in> set xs \<Longrightarrow> c \<notin> set x) \<Longrightarrow> split_on c (join_with c xs) = xs"
proof (induction c xs rule: join_with.induct)
  case (1 c)
  then show ?case by simp
next
  case (2 c x)
  then show ?case by (simp add: split_on_no_sep)
next
  case (3 c x y ys)
  then show ?case by (simp add: split_on_append)
qed

lemma is_digit_not_special:
  "is_digit c \<Longrightarrow> c \<noteq> CHR '':'' \<and> c \<noteq> CHR ''.'' \<and> c \<noteq> CHR '']'' \<and> c \<noteq> CHR ''[''
     \<and> c \<noteq> CHR ''-'' \<and> c \<noteq> CHR ''+'' \<and> \<not> is_space c \<and> \<not> line_terminator c"
  by (auto simp: is_digit_def is_space_def line_terminator_def)

lemma parseInt10_digits:
  assumes "ds \<noteq> []" "list_all is_digit ds"
  shows "parseInt10 ds = Some (int (dec_value ds))"
proof -
  from assms have d: "is_digit (hd ds)" by (cases ds) auto
  have tw: "takeWhile is_digit ds = ds"
    using assms(2) by (simp add: list_all_iff)
  have dw: "dropWhile is_space ds = ds"
    using d assms(1) is_digit_not_special[of "hd ds"] by (cases ds) auto
  have sg: "hd ds \<noteq> CHR ''-''" "hd ds \<noteq> CHR ''+''"
    using is_digit_not_special[OF d] by simp_all
  show ?thesis
    by (simp add: parseInt10_def Let_def tw dw sg assms(1))
qed

lemma short_list_cases:
  "length fs \<le> 3 \<Longrightarrow>
     fs = [] \<or> (\<exists>a. fs = [a]) \<or> (\<exists>a b. fs = [a, b]) \<or> (\<exists>a b c. fs = [a, b, c])"
  by (cases fs; cases "tl fs"; cases "tl (tl fs)"; cases "tl (tl (tl fs))") auto

lemma match_close_Some:
  assumes "match_close s = Some n"
  shows "\<exists>fs r. list_all is_digit fs \<and> length fs \<le> 3
            \<and> s = (if fs = [] then [] else CHR ''.'' # fs) @ CHR '']'' # r
            \<and> take n s = (if fs = [] then [] else CHR ''.'' # fs) @ '']'' \<and> drop n s = r"
proof (cases "frac3 s")
  case (Some k)
  then obtain a b c r where "s = CHR ''.'' # a # b # c # CHR '']'' # r" "is_digit a" "is_digit b" "is_digit c" "k = 5"
    by (auto elim!: frac3.elims split: if_splits)
  with Some assms show ?thesis
    by (intro exI[of _ "[a, b, c]"] exI[of _ r]) (simp add: match_close_def)
next
  case n3: None
  show ?thesis
  proof (cases "frac2 s")
    case (Some k)
    then obtain a b r where "s = CHR ''.'' # a # b # CHR '']'' # r" "is_digit a" "is_digit b" "k = 4"
      by (auto elim!: frac2.elims split: if_splits)
    with Some n3 assms show ?thesis
      by (intro exI[of _ "[a, b]"] exI[of _ r]) (simp add: match_close_def)
  next
    case n2: None
    show ?thesis
    proof (cases "frac1 s")
      case (Some k)
      then obtain a r where "s = CHR ''.'' # a # CHR '']'' # r" "is_digit a" "k = 3"
        by (auto elim!: frac1.elims split: if_splits)
      with Some n3 n2 assms show ?thesis
        by (intro exI[of _ "[a]"] exI[of _ r]) (simp add: match_close_def)
    next
      case n1: None
      with n3 n2 assms obtain r where "s = CHR '']'' # r" "n = 1"
        by (cases s) (auto simp: match_close_def split: if_splits)
      then show ?thesis
        by (intro exI[of _ "[]"] exI[of _ r]) simp
    qed
  qed
qed

lemma frac_hd_None:
  "s \<noteq> [] \<Longrightarrow> hd s \<noteq> CHR ''.'' \<Longrightarrow> frac3 s = None \<and> frac2 s = None \<and> frac1 s = None"
  by (cases s rule: frac3.cases; cases s rule: frac2.cases; cases s rule: frac1.cases) auto

lemma frac3_third_None: "\<not> is_digit b \<Longrightarrow> frac3 (p # a # b # r) = None"
  by (cases r; cases "tl r") auto

lemma frac3_fourth_None: "\<not> is_digit c \<Longrightarrow> frac3 (p # a # b # c # r) = None"
  by (cases r) auto

lemma frac2_third_None: "\<not> is_digit b \<Longrightarrow> frac2 (p # a # b # r) = None"
  by (cases r) auto

lemma not_digit_close: "\<not> is_digit CHR '']''"
  by (simp add: is_digit_def)

lemma match_close_intro:
  assumes "list_all is_digit fs" "length fs \<le> 3"
  shows "match_close ((if fs = [] then [] else CHR ''.'' # fs) @ CHR '']'' # r)
           = Some (length ((if fs = [] then [] else CHR ''.'' # fs) @ '']''))"
proof -
  consider "fs = []" | a where "fs = [a]" | a b where "fs = [a, b]" | a b c where "fs = [a, b, c]"
    using short_list_cases[OF assms(2)] by blast
  then show ?thesis
  proof cases
    case 1
    then show ?thesis
      using frac_hd_None[of "CHR '']'' # r"] by (simp add: match_close_def)
  next
    case 2
    then show ?thesis
      using assms(1)
      by (simp add: match_close_def frac3_third_None frac2_third_None not_digit_close)
  next
    case 3
    then show ?thesis
      using assms(1)
      by (simp add: match_close_def frac3_fourth_None not_digit_close)
  next
    case 4
    then show ?thesis
      using assms(1) by (simp add: match_close_def)
  qed
qed

lemma match_tag_intro:
  assumes "is_digit m1" "is_digit m2" "is_digit s1" "is_digit s2"
    "list_all is_digit fs" "length fs \<le> 3"
  shows "match_tag (tag_chars m1 m2 s1 s2 fs @ r) = Some (tag_chars m1 m2 s1 s2 fs, r)"
  using assms match_close_intro[OF assms(5,6), of r]
  by (simp add: tag_chars_def)

lemma match_tag_Some:
  assumes "match_tag s = Some (t, r)"
  shows "\<exists>m1 m2 s1 s2 fs. is_digit m1 \<and> is_digit m2 \<and> is_digit s1 \<and> is_digit s2
           \<and> list_all is_digit fs \<and> length fs \<le> 3 \<and> t = tag_chars m1 m2 s1 s2 fs \<and> s = t @ r"
proof -
  from assms obtain b m1 m2 c s1 s2 r0 n where
    s: "s = CHR ''['' # m1 # m2 # CHR '':'' # s1 # s2 # r0"
    and d: "is_digit m1" "is_digit m2" "is_digit s1" "is_digit s2"
    and mc: "match_close r0 = Some n"
    and t: "t = CHR ''['' # m1 # m2 # CHR '':'' # s1 # s2 # take n r0" and r: "r = drop n r0"
    by (auto elim!: match_tag.elims split: if_splits option.splits)
  from match_close_Some[OF mc] obtain fs where
    "list_all is_digit fs" "length fs \<le> 3"
    "take n r0 = (if fs = [] then [] else CHR ''.'' # fs) @ '']''"
    by blast
  with s d t r show ?thesis
    using append_take_drop_id[of n r0]
    apply (rule_tac x = m1 in exI, rule_tac x = m2 in exI, rule_tac x = s1 in exI,
        rule_tac x = s2 in exI, rule_tac x = fs in exI)
    apply (simp add: tag_chars_def)
    done
qed

lemma dec_value_simps:
  "dec_value [] = 0" "dec_value ''0'' = 0"
  "dec_value [a, b] = 10 * digit_val a + digit_val b"
  by (simp_all add: dec_value_def digit_val_def)

lemma to_seconds_tag:
  assumes "is_digit m1" "is_digit m2" "is_digit s1" "is_digit s2"
    "list_all is_digit fs" "length fs \<le> 3"
  shows "to_seconds (tag_chars m1 m2 s1 s2 fs) =
           Inr (of_nat ((10 * digit_val m1 + digit_val m2) * 60)
                + of_nat (10 * digit_val s1 + digit_val s2)
                + of_nat (dec_value fs) / (if length fs = 3 then 1000 else 100))"
proof -
  let ?frac = "if fs = [] then [] else CHR ''.'' # fs"
  let ?rest = "s1 # s2 # ?frac"
  have ts: "butlast (tl (tag_chars m1 m2 s1 s2 fs)) = [m1, m2] @ CHR '':'' # ?rest"
    by (simp add: tag_chars_def butlast_append)
  have nd: "CHR '':'' \<notin> set fs" "CHR ''.'' \<notin> set fs"
    using assms(5) is_digit_not_special by (auto simp: list_all_iff)
  have sp1: "split_on CHR '':'' ([m1, m2] @ CHR '':'' # ?rest) = [[m1, m2], ?rest]"
    using assms(1-4) nd is_digit_not_special
    by (subst split_on_append) (auto simp: split_on_no_sep)
  have sp2: "split_on CHR ''.'' ?rest = (if fs = [] then [[s1, s2]] else [[s1, s2], fs])"
  proof (cases "fs = []")
    case True
    then show ?thesis
      using assms(3,4) is_digit_not_special by (simp add: split_on_no_sep)
  next
    case False
    have "split_on CHR ''.'' ([s1, s2] @ CHR ''.'' # fs) = [s1, s2] # split_on CHR ''.'' fs"
      using assms(3,4) is_digit_not_special by (intro split_on_append) auto
    with False nd show ?thesis by (simp add: split_on_no_sep)
  qed
  have pm: "parseInt10 [m1, m2] = Some (int (dec_value [m1, m2]))"
    using assms by (intro parseInt10_digits) auto
  have ps: "parseInt10 [s1, s2] = Some (int (dec_value [s1, s2]))"
    using assms by (intro parseInt10_digits) auto
  have p0: "parseInt10 ''0'' = Some 0"
    using parseInt10_digits[of "''0''"] by (simp add: is_digit_def dec_value_simps)
  have pf: "fs \<noteq> [] \<Longrightarrow> parseInt10 fs = Some (int (dec_value fs))"
    using assms by (intro parseInt10_digits) auto
  have sp: "split_on CHR '':'' (butlast (tl (tag_chars m1 m2 s1 s2 fs))) = [[m1, m2], ?rest]"
    unfolding ts by (rule sp1)
  have "to_seconds (tag_chars m1 m2 s1 s2 fs) =
          (if fs = [] then Inr (of_int (int (dec_value [m1, m2]) * 60) + of_int (int (dec_value [s1, s2])) + of_int 0 / 100)
           else Inr (of_int (int (dec_value [m1, m2]) * 60) + of_int (int (dec_value [s1, s2]))
                  + of_int (int (dec_value fs)) / (if length fs = 3 then 1000 else 100)))"
    unfolding to_seconds_def Let_def sp list.case sp2
    by (simp add: pm ps p0 pf del: split_on.simps)
  then show ?thesis
    by (simp add: dec_value_simps)
qed

lemma trim_middle:
  assumes "\<not> is_space x"
  shows "trim (a @ x # b) = dropWhile is_space a @ x # rev (dropWhile is_space (rev b))"
proof -
  have 1: "dropWhile is_space (a @ x # b) = dropWhile is_space a @ x # b"
    using assms by (simp add: dropWhile_append)
  have 2: "dropWhile is_space (rev b @ x # rev (dropWhile is_space a))
             = dropWhile is_space (rev b) @ x # rev (dropWhile is_space a)"
    using assms by (simp add: dropWhile_append)
  show ?thesis
    unfolding trim_def 1 by (simp add: 2)
qed

lemma trim_all_space:
  assumes "list_all is_space s"
  shows "trim s = []"
proof -
  have e: "dropWhile is_space s = []"
    using assms by (simp add: list_all_iff)
  show ?thesis
    unfolding trim_def e by simp
qed

lemma trim_shape:
  "trim s = [] \<or> (\<not> is_space (hd (trim s)) \<and> \<not> is_space (last (trim s)))"
proof (cases "dropWhile is_space s")
  case Nil
  show ?thesis unfolding trim_def Nil by simp
next
  case (Cons x xs)
  then have x: "\<not> is_space x"
    by (metis hd_dropWhile list.sel(1) list.distinct(1))
  have "dropWhile is_space (rev (x # xs)) \<noteq> []"
    using x by (simp add: dropWhile_append)
  then have ne: "dropWhile is_space (rev (x # xs)) \<noteq> []" .
  have h: "\<not> is_space (hd (dropWhile is_space (rev (x # xs))))"
    using ne by (rule hd_dropWhile)
  have "rev (dropWhile is_space (rev (x # xs))) = x # tl (rev (dropWhile is_space (rev (x # xs))))"
    using x by (simp add: dropWhile_append)
  then have hd: "hd (trim s) = x"
    by (metis Cons trim_def list.sel(1))
  have lst: "last (trim s) = hd (dropWhile is_space (rev (x # xs)))"
    using ne by (simp add: trim_def Cons last_rev del: rev.simps)
  show ?thesis
    using x h hd lst by simp
qed

lemma trim_fixed:
  assumes "s \<noteq> []" "\<not> is_space (hd s)" "\<not> is_space (last s)"
  shows "trim s = s"
proof -
  have 1: "dropWhile is_space s = s"
    using assms(1,2) by (cases s) auto
  have 2: "dropWhile is_space (rev s) = rev s"
    using assms(1,3) by (cases "rev s") (auto simp: last_rev[symmetric] hd_rev)
  show ?thesis by (simp add: trim_def 1 2)
qed

lemma trim_Nil: "trim [] = []"
  by (simp add: trim_def)

lemma trim_idem: "trim (trim s) = trim s"
proof (cases "trim s = []")
  case True
  then show ?thesis by (simp add: trim_Nil)
next
  case False
  with trim_shape[of s] show ?thesis
    by (intro trim_fixed) auto
qed

lemma set_trim: "set (trim s) \<subseteq> set s"
proof -
  have "set (trim s) = set (dropWhile is_space (rev (dropWhile is_space s)))"
    by (simp add: trim_def)
  also have "\<dots> \<subseteq> set (rev (dropWhile is_space s))" by (rule set_dropWhileD[THEN subsetI]) 
  also have "\<dots> \<subseteq> set s" by (auto dest: set_dropWhileD)
  finally show ?thesis .
qed

lemma is_tag_chars:
  "is_tag t \<longleftrightarrow> (\<exists>m1 m2 s1 s2 fs. is_digit m1 \<and> is_digit m2 \<and> is_digit s1 \<and> is_digit s2
           \<and> list_all is_digit fs \<and> length fs \<le> 3 \<and> t = tag_chars m1 m2 s1 s2 fs)"
  by (rule is_tag_def)

lemma match_tag_is_tag: "match_tag s = Some (t, r) \<Longrightarrow> is_tag t \<and> s = t @ r"
  using match_tag_Some[of s t r] is_tag_chars by blast

lemma is_tag_match: "is_tag t \<Longrightarrow> match_tag (t @ r) = Some (t, r)"
  using is_tag_chars match_tag_intro by auto

lemma is_tag_props:
  assumes "is_tag t"
  shows "t \<noteq> []" "hd t = CHR ''[''" "CHR ''['' \<notin> set (tl t)" "last t = CHR '']''"
    "\<forall>c\<in>set t. \<not> is_space c \<and> \<not> line_terminator c"
proof -
  from assms obtain m1 m2 s1 s2 fs where d: "is_digit m1" "is_digit m2" "is_digit s1" "is_digit s2"
    "list_all is_digit fs" and t: "t = tag_chars m1 m2 s1 s2 fs"
    using is_tag_chars by blast
  have fs: "\<forall>c\<in>set fs. c \<noteq> CHR ''['' \<and> \<not> is_space c \<and> \<not> line_terminator c"
    using d(5) is_digit_not_special by (auto simp: list_all_iff)
  show "t \<noteq> []" "hd t = CHR ''[''" "last t = CHR '']''"
    by (simp_all add: t tag_chars_def)
  show "CHR ''['' \<notin> set (tl t)"
    using d(1-4) fs is_digit_not_special by (auto simp: t tag_chars_def)
  show "\<forall>c\<in>set t. \<not> is_space c \<and> \<not> line_terminator c"
    using d(1-4) fs is_digit_not_special
    by (auto simp: t tag_chars_def is_space_def line_terminator_def)
qed

lemma match_tag_straddle:
  assumes "match_tag q = None" "q \<noteq> []" "x \<noteq> []" "hd x = CHR ''[''"
  shows "match_tag (q @ x) = None"
proof (rule ccontr)
  assume "match_tag (q @ x) \<noteq> None"
  then obtain t r where m: "match_tag (q @ x) = Some (t, r)" by auto
  then have tg: "is_tag t" and eq: "q @ x = t @ r"
    using match_tag_is_tag by auto
  from eq consider u where "q = t @ u" | u where "u \<noteq> []" "q @ u = t" "x = u @ r"
    by (auto simp: append_eq_append_conv2) (metis append.right_neutral)
  then show False
  proof cases
    case 1
    then show ?thesis using is_tag_match[OF tg, of u] assms(1) by simp
  next
    case 2
    then have "hd u = CHR ''[''" using assms(4) by (cases u) auto
    then have "CHR ''['' \<in> set u" using 2(1) by (cases u) auto
    moreover have "set u \<subseteq> set (tl t)"
      using 2(2) assms(2) by (cases q) auto
    ultimately show ?thesis using is_tag_props(3)[OF tg] by auto
  qed
qed

lemma lineRegex_exec_prefix:
  assumes "lineRegex_exec p = None" "is_tag t"
  shows "lineRegex_exec (p @ t @ r) = Some (t, rest_of_line r)"
  using assms(1)
proof (induction p)
  case Nil
  from is_tag_props(1)[OF assms(2)] obtain c cs where "t = c # cs" by (cases t) auto
  then show ?case
    using is_tag_match[OF assms(2), of r] by simp
next
  case (Cons c p)
  then have n: "match_tag (c # p) = None" and rec: "lineRegex_exec p = None"
    by (auto split: option.splits)
  have "match_tag ((c # p) @ t @ r) = None"
    using n is_tag_props(1,2)[OF assms(2)] by (intro match_tag_straddle) auto
  then show ?case
    using Cons.IH[OF rec] by simp
qed

lemma lineRegex_exec_Some:
  "lineRegex_exec s = Some (t, m2) \<Longrightarrow>
     \<exists>p r. s = p @ t @ r \<and> lineRegex_exec p = None \<and> is_tag t \<and> m2 = rest_of_line r"
proof (induction s)
  case Nil
  then show ?case by simp
next
  case (Cons c s)
  show ?case
  proof (cases "match_tag (c # s)")
    case None
    with Cons.prems have "lineRegex_exec s = Some (t, m2)" by simp
    from Cons.IH[OF this] obtain p r where
      "s = p @ t @ r" "lineRegex_exec p = None" "is_tag t" "m2 = rest_of_line r" by blast
    moreover have "match_tag (c # p) = None"
    proof (rule ccontr)
      assume "match_tag (c # p) \<noteq> None"
      then obtain t' r' where "match_tag (c # p) = Some (t', r')" by auto
      then have "is_tag t'" "c # p = t' @ r'" using match_tag_is_tag by auto
      then have "match_tag (t' @ (r' @ t @ r)) = Some (t', r' @ t @ r)"
        using is_tag_match by blast
      then show False using None \<open>c # p = t' @ r'\<close> \<open>s = p @ t @ r\<close>
        by (metis append_Cons append_assoc option.distinct(1))
    qed
    ultimately show ?thesis
      by (intro exI[of _ "c # p"] exI[of _ r]) simp
  next
    case (Some a)
    then obtain t' r' where a: "a = (t', r')" by (cases a)
    with Some Cons.prems have "t' = t" "m2 = rest_of_line r'" by auto
    moreover have "is_tag t'" "c # s = t' @ r'"
      using Some a match_tag_is_tag by auto
    ultimately show ?thesis
      by (intro exI[of _ "[]"] exI[of _ r']) simp
  qed
qed

lemma lineRegex_exec_None_suffix:
  "lineRegex_exec (a @ b) = None \<Longrightarrow> lineRegex_exec b = None"
  by (induction a) (auto split: option.splits)

subsection \<open>Written tags and trimming\<close>

lemma digit_char_props:
  assumes "d < 10"
  shows "is_digit (digit_char d)" "digit_val (digit_char d) = d"
proof -
  from assms have d: "d = 0 \<or> d = 1 \<or> d = 2 \<or> d = 3 \<or> d = 4 \<or> d = 5 \<or> d = 6
    \<or> d = 7 \<or> d = 8 \<or> d = 9" by arith
  then show "is_digit (digit_char d)"
    by (elim disjE) (simp_all add: digit_char_def is_digit_def)
  from d show "digit_val (digit_char d) = d"
    by (elim disjE) (simp_all add: digit_char_def digit_val_def)
qed

lemma dec_value_snoc: "dec_value (ds @ [c]) = 10 * dec_value ds + digit_val c"
  by (simp add: dec_value_def)

lemma pad_digits_props:
  "list_all is_digit (pad_digits k n)" "length (pad_digits k n) = k"
  "dec_value (pad_digits k n) = n mod 10 ^ k"
proof -
  show "list_all is_digit (pad_digits k n)"
    by (induction k arbitrary: n) (simp_all add: digit_char_props)
  show "length (pad_digits k n) = k"
    by (induction k arbitrary: n) simp_all
  show "dec_value (pad_digits k n) = n mod 10 ^ k"
  proof (induction k arbitrary: n)
    case 0
    then show ?case by (simp add: dec_value_simps)
  next
    case (Suc k)
    have "dec_value (pad_digits (Suc k) n) = 10 * (n div 10 mod 10 ^ k) + n mod 10"
      by (simp add: dec_value_snoc Suc.IH digit_char_props)
    also have "\<dots> = n mod 10 ^ Suc k"
      by (simp add: mod_mult2_eq)
    finally show ?case .
  qed
qed

lemma pad_digits_2: "pad_digits 2 n = [digit_char (n div 10 mod 10), digit_char (n mod 10)]"
proof -
  have "pad_digits (Suc (Suc 0)) n = [digit_char (n div 10 mod 10), digit_char (n mod 10)]"
    by simp
  then show ?thesis
    by (simp only: numeral_2_eq_2)
qed

lemma pad_digits_1: "pad_digits 1 n = [digit_char (n mod 10)]"
  "pad_digits (Suc 0) n = [digit_char (n mod 10)]"
  by simp_all

lemma pad_digits_3:
  "pad_digits 3 n = [digit_char (n div 100 mod 10), digit_char (n div 10 mod 10), digit_char (n mod 10)]"
proof -
  have "pad_digits (Suc (Suc (Suc 0))) n =
          [digit_char (n div 100 mod 10), digit_char (n div 10 mod 10), digit_char (n mod 10)]"
    by (simp add: div_mult2_eq[symmetric])
  then show ?thesis
    by (simp only: numeral_3_eq_3)
qed

lemmas tag_of_eval = tag_of_def pad_digits_1 pad_digits_2 pad_digits_3 digit_char_def

lemma tag_of_chars:
  "tag_of mm ss k f =
     tag_chars (digit_char (mm div 10 mod 10)) (digit_char (mm mod 10))
               (digit_char (ss div 10 mod 10)) (digit_char (ss mod 10)) (pad_digits k f)"
proof (cases k)
  case 0
  then show ?thesis by (simp add: tag_of_def tag_chars_def pad_digits_2)
next
  case (Suc j)
  then show ?thesis by (simp add: tag_of_def tag_chars_def pad_digits_2)
qed

lemma is_tag_tag_of: "k \<le> 3 \<Longrightarrow> is_tag (tag_of mm ss k f)"
  unfolding is_tag_def tag_of_chars
  apply (rule exI[of _ "digit_char (mm div 10 mod 10)"], rule exI[of _ "digit_char (mm mod 10)"])
  apply (rule exI[of _ "digit_char (ss div 10 mod 10)"], rule exI[of _ "digit_char (ss mod 10)"])
  apply (rule exI[of _ "pad_digits k f"])
  apply (simp add: digit_char_props pad_digits_props)
  done

lemma to_seconds_tag_of:
  assumes "mm < 100" "ss < 100" "k \<le> 3" "f < 10 ^ k"
  shows "to_seconds (tag_of mm ss k f) = Inr (tag_seconds mm ss k f)"
proof -
  have mm: "10 * (mm div 10 mod 10) + mm mod 10 = mm"
    using assms(1) by simp
  have ss: "10 * (ss div 10 mod 10) + ss mod 10 = ss"
    using assms(2) by simp
  have "to_seconds (tag_of mm ss k f) =
          Inr (of_nat ((10 * (mm div 10 mod 10) + mm mod 10) * 60)
                + of_nat (10 * (ss div 10 mod 10) + ss mod 10)
                + of_nat f / (if k = 3 then 1000 else 100))"
    unfolding tag_of_chars using assms(3,4)
    by (subst to_seconds_tag) (simp_all add: digit_char_props pad_digits_props)
  then show ?thesis
    unfolding mm ss tag_seconds_def by simp
qed

lemma trim_around:
  assumes "a \<noteq> []" "\<not> is_space (hd a)" "\<not> is_space (last a)"
  shows "trim (p @ a @ r) = dropWhile is_space p @ a @ rev (dropWhile is_space (rev r))"
proof -
  have a1: "dropWhile is_space (a @ r) = a @ r"
    using assms(1,2) by (cases a) auto
  have 1: "dropWhile is_space (p @ a @ r) = dropWhile is_space p @ a @ r"
    using a1 by (simp add: dropWhile_append)
  have a2: "dropWhile is_space (rev a @ q) = rev a @ q" for q
    using assms(1,3) by (cases "rev a") (auto simp: last_rev[symmetric] hd_rev)
  have 2: "dropWhile is_space (rev r @ rev a @ q) = dropWhile is_space (rev r) @ rev a @ q" for q
    using a2 by (simp add: dropWhile_append)
  show ?thesis
    unfolding trim_def 1 by (simp add: 2)
qed

lemma rtrim_trim: "trim (rev (dropWhile is_space (rev r))) = trim r"
proof (cases "list_all is_space r")
  case True
  then have e: "dropWhile is_space (rev r) = []"
    by (simp add: list_all_iff)
  show ?thesis
    unfolding e using trim_all_space[OF True] by (simp add: trim_Nil)
next
  case False
  then have "\<exists>x\<in>set r. \<not> is_space x"
    by (simp add: list_all_iff)
  from split_list_first_prop[OF this]
  obtain a x b where r: "r = a @ x # b" and x: "\<not> is_space x" and a: "\<forall>y\<in>set a. \<not> \<not> is_space y"
    by blast
  have e: "dropWhile is_space (rev b @ x # rev a) = dropWhile is_space (rev b) @ x # rev a"
    using x by (simp add: dropWhile_append)
  have "trim (rev (dropWhile is_space (rev r))) = trim (a @ x # rev (dropWhile is_space (rev b)))"
    by (simp add: r e)
  also have "\<dots> = dropWhile is_space a @ x # rev (dropWhile is_space (rev b))"
    using x by (simp add: trim_middle)
  also have "\<dots> = trim r"
    using x by (simp add: r trim_middle)
  finally show ?thesis .
qed

subsection \<open>The conversion of a line\<close>

lemma lineRegex_exec_extend:
  "lineRegex_exec p \<noteq> None \<Longrightarrow> lineRegex_exec (p @ y) \<noteq> None"
proof (induction p)
  case Nil
  then show ?case by simp
next
  case (Cons c p)
  show ?case
  proof (cases "match_tag (c # p)")
    case None
    with Cons show ?thesis by (auto split: option.splits)
  next
    case (Some a)
    then obtain t r where "match_tag (c # p) = Some (t, r)" by (cases a) auto
    then have "is_tag t" "c # p = t @ r" using match_tag_is_tag by auto
    then have "match_tag ((c # p) @ y) = Some (t, r @ y)"
      using is_tag_match[of t "r @ y"] by simp
    then show ?thesis by simp
  qed
qed

lemma contains_tag_iff: "contains_tag s \<longleftrightarrow> lineRegex_exec s \<noteq> None"
proof
  assume "contains_tag s"
  then obtain p t r where s: "s = p @ t @ r" and t: "is_tag t"
    unfolding contains_tag_def by blast
  show "lineRegex_exec s \<noteq> None"
  proof (cases "lineRegex_exec p")
    case None
    then show ?thesis using lineRegex_exec_prefix[OF None t, of r] s by simp
  next
    case (Some a)
    then show ?thesis using lineRegex_exec_extend[of p "t @ r"] s by simp
  qed
next
  assume "lineRegex_exec s \<noteq> None"
  then obtain t m2 where "lineRegex_exec s = Some (t, m2)" by auto
  from lineRegex_exec_Some[OF this] show "contains_tag s"
    unfolding contains_tag_def by blast
qed

lemma trim_infix: "\<exists>a b. s = a @ trim s @ b \<and> list_all is_space a \<and> list_all is_space b"
proof -
  let ?l = "dropWhile is_space s"
  have 1: "s = takeWhile is_space s @ ?l" by simp
  have "rev ?l = takeWhile is_space (rev ?l) @ dropWhile is_space (rev ?l)" by simp
  then have "?l = rev (dropWhile is_space (rev ?l)) @ rev (takeWhile is_space (rev ?l))"
    by (metis rev_append rev_rev_ident)
  then have 2: "?l = trim s @ rev (takeWhile is_space (rev ?l))"
    by (simp add: trim_def)
  have "s = takeWhile is_space s @ trim s @ rev (takeWhile is_space (rev ?l))"
    using 1 2 by metis
  moreover have "list_all is_space (takeWhile is_space s)"
    by (simp add: list_all_iff) (meson set_takeWhileD)
  moreover have "list_all is_space (rev (takeWhile is_space (rev ?l)))"
    by (simp add: list_all_iff) (meson set_takeWhileD)
  ultimately show ?thesis by blast
qed

lemma is_tag_ends:
  assumes "is_tag t"
  shows "\<not> is_space (hd t)" "\<not> is_space (last t)"
  using is_tag_props[OF assms] by (auto simp: is_space_def)

lemma contains_tag_trim: "contains_tag (trim s) \<longleftrightarrow> contains_tag s"
proof
  assume "contains_tag (trim s)"
  then obtain p t r where "trim s = p @ t @ r" "is_tag t"
    unfolding contains_tag_def by blast
  moreover obtain a b where "s = a @ trim s @ b" using trim_infix by blast
  ultimately have "s = (a @ p) @ t @ (r @ b)" by simp
  with \<open>is_tag t\<close> show "contains_tag s"
    unfolding contains_tag_def by blast
next
  assume "contains_tag s"
  then obtain p t r where s: "s = p @ t @ r" and t: "is_tag t"
    unfolding contains_tag_def by blast
  have "trim s = dropWhile is_space p @ t @ rev (dropWhile is_space (rev r))"
    unfolding s using is_tag_props(1)[OF t] is_tag_ends[OF t] by (rule trim_around)
  with t show "contains_tag (trim s)"
    unfolding contains_tag_def by blast
qed

lemma is_tag_to_seconds: "is_tag t \<Longrightarrow> \<exists>ts. to_seconds t = Inr ts"
  unfolding is_tag_def using to_seconds_tag by blast

lemma convert_line_None:
  assumes "\<not> contains_tag l"
  shows "convert_line l = Inr None"
proof -
  have "lineRegex_exec (trim l) = None"
    using assms contains_tag_trim[of l] contains_tag_iff[of "trim l"] by blast
  then show ?thesis
    by (simp add: convert_line_def)
qed

lemma convert_line_prefixed:
  assumes "\<not> contains_tag p" "is_tag t" "to_seconds t = Inr ts"
  shows "convert_line (p @ t @ r) =
           Inr (Some \<lparr>timestamp = ts,
                      text' = trim (rest_of_line (rev (dropWhile is_space (rev r)))),
                      lrcTime = t\<rparr>)"
proof -
  have tr: "trim (p @ t @ r) = dropWhile is_space p @ t @ rev (dropWhile is_space (rev r))"
    using is_tag_props(1)[OF assms(2)] is_tag_ends[OF assms(2)] by (rule trim_around)
  have "p = takeWhile is_space p @ dropWhile is_space p" by simp
  then have "lineRegex_exec (dropWhile is_space p) = None"
    using assms(1) contains_tag_iff[of p] lineRegex_exec_None_suffix by metis
  from lineRegex_exec_prefix[OF this assms(2)]
  show ?thesis
    unfolding convert_line_def tr by (simp add: assms(3))
qed

lemma rest_of_line_id: "\<forall>c\<in>set r. \<not> line_terminator c \<Longrightarrow> rest_of_line r = r"
  by (simp add: rest_of_line_def)

lemma convert_line_one_line:
  assumes "\<not> contains_tag p" "is_tag t" "to_seconds t = Inr ts"
    "\<forall>c\<in>set r. \<not> line_terminator c"
  shows "convert_line (p @ t @ r) = Inr (Some \<lparr>timestamp = ts, text' = trim r, lrcTime = t\<rparr>)"
proof -
  have "set (rev (dropWhile is_space (rev r))) \<subseteq> set r"
    by (auto dest: set_dropWhileD)
  then have "rest_of_line (rev (dropWhile is_space (rev r))) = rev (dropWhile is_space (rev r))"
    using assms(4) by (intro rest_of_line_id) auto
  then show ?thesis
    using convert_line_prefixed[OF assms(1-3), of r] by (simp add: rtrim_trim)
qed

lemma convert_line_total: "\<exists>v. convert_line l = Inr v"
proof (cases "contains_tag l")
  case False
  then show ?thesis by (simp add: convert_line_None)
next
  case True
  then have "lineRegex_exec (trim l) \<noteq> None"
    using contains_tag_trim contains_tag_iff by simp
  then obtain t m2 where e: "lineRegex_exec (trim l) = Some (t, m2)" by auto
  then have "is_tag t" using lineRegex_exec_Some by blast
  then obtain ts where "to_seconds t = Inr ts" using is_tag_to_seconds by blast
  with e show ?thesis by (simp add: convert_line_def)
qed

lemma map_lines_total: "map_lines ls = Inr (map (\<lambda>l. projr (convert_line l)) ls)"
proof (induction ls)
  case Nil
  then show ?case by simp
next
  case (Cons l ls)
  obtain v where "convert_line l = Inr v" using convert_line_total by blast
  with Cons show ?case by simp
qed

lemma parseLrc_Some:
  "parseLrc (Some s) =
     Inr (sort_lines (filter_Boolean (map (\<lambda>l. projr (convert_line l)) (split_on CHR 0x0A s))))"
proof (cases "s = []")
  case True
  have "convert_line [] = Inr None"
    by (simp add: convert_line_def trim_Nil)
  then show ?thesis
    using True by (simp add: parseLrc_def sort_lines_def)
next
  case False
  then show ?thesis
    by (simp add: parseLrc_def map_lines_total)
qed

subsection \<open>Documents\<close>


lemma convert_line_tagged:
  assumes "mm < 100" "ss < 100" "k \<le> 3" "f < 10 ^ k" "list_all (\<lambda>c. \<not> line_terminator c) r"
  shows "convert_line (tag_of mm ss k f @ r) =
           Inr (Some \<lparr>timestamp = tag_seconds mm ss k f, text' = trim r,
                       lrcTime = tag_of mm ss k f\<rparr>)"
proof -
  have e: "\<not> contains_tag []" by (simp add: contains_tag_iff)
  have r: "\<forall>c\<in>set r. \<not> line_terminator c" using assms(5) by (simp add: list_all_iff)
  show ?thesis
    using convert_line_one_line[OF e is_tag_tag_of[OF assms(3)] to_seconds_tag_of[OF assms(1-4)] r]
    by simp
qed

lemma split_on_no_sep_inside: "l \<in> set (split_on c s) \<Longrightarrow> c \<notin> set l"
  by (induction s arbitrary: l) (auto split: if_splits list.splits)

lemma convert_line_parsed:
  assumes "convert_line x = Inr (Some l)"
  shows "parsed_line l"
proof -
  from assms obtain t m2 ts where e: "lineRegex_exec (trim x) = Some (t, m2)"
    and ts: "to_seconds t = Inr ts"
    and l: "l = \<lparr>timestamp = ts, text' = trim m2, lrcTime = t\<rparr>"
    by (auto simp: convert_line_def split: option.splits sum.splits)
  from lineRegex_exec_Some[OF e] obtain r where t: "is_tag t" and m2: "m2 = rest_of_line r"
    by blast
  have "\<forall>c\<in>set m2. \<not> line_terminator c"
    unfolding m2 rest_of_line_def by (auto dest: set_takeWhileD)
  then have "\<forall>c\<in>set (trim m2). \<not> line_terminator c"
    using set_trim[of m2] by auto
  then show ?thesis
    unfolding parsed_line_def l using t ts by (simp add: trim_idem list_all_iff)
qed

lemma parsed_line_render:
  assumes "parsed_line l"
  shows "convert_line (lrcTime l @ text' l) = Inr (Some l)"
    and "CHR 0x0A \<notin> set (lrcTime l @ text' l)"
proof -
  have t: "is_tag (lrcTime l)" and ts: "to_seconds (lrcTime l) = Inr (timestamp l)"
    and tr: "trim (text' l) = text' l" and lt: "\<forall>c\<in>set (text' l). \<not> line_terminator c"
    using assms by (simp_all add: parsed_line_def list_all_iff)
  have e: "\<not> contains_tag []" by (simp add: contains_tag_iff)
  show "convert_line (lrcTime l @ text' l) = Inr (Some l)"
    using convert_line_one_line[OF e t ts lt] by (simp add: tr)
  show "CHR 0x0A \<notin> set (lrcTime l @ text' l)"
    using lt is_tag_props(5)[OF t] by (auto simp: line_terminator_def)
qed

lemma filter_Boolean_Some: "filter_Boolean (map Some xs) = xs"
  by (induction xs) simp_all

lemma filter_Boolean_set:
  "l \<in> set (filter_Boolean vs) \<Longrightarrow> Some l \<in> set vs"
  by (induction vs rule: filter_Boolean.induct) auto

lemma parseLrc_lines_parsed:
  assumes "parseLrc T = Inr doc"
  shows "\<forall>l\<in>set doc. parsed_line l" and "sorted (map timestamp doc)"
proof -
  show "sorted (map timestamp doc)"
  proof (cases T)
    case None
    with assms show ?thesis by (simp add: parseLrc_def)
  next
    case (Some s)
    with assms show ?thesis by (auto simp: parseLrc_Some sort_lines_def)
  qed
  show "\<forall>l\<in>set doc. parsed_line l"
  proof (cases T)
    case None
    with assms show ?thesis by (simp add: parseLrc_def)
  next
    case (Some s)
    show ?thesis
    proof
      fix l assume "l \<in> set doc"
      then have "l \<in> set (filter_Boolean (map (\<lambda>l. projr (convert_line l)) (split_on CHR 0x0A s)))"
        using assms Some by (auto simp: parseLrc_Some sort_lines_def)
      then obtain x where "projr (convert_line x) = Some l"
        using filter_Boolean_set by fastforce
      moreover obtain v where "convert_line x = Inr v" using convert_line_total by blast
      ultimately have "convert_line x = Inr (Some l)" by simp
      then show "parsed_line l" by (rule convert_line_parsed)
    qed
  qed
qed

lemma parse_format_parsed:
  assumes "\<forall>l\<in>set doc. parsed_line l" "sorted (map timestamp doc)"
  shows "parseLrc (Some (formatLrc doc)) = Inr doc"
proof (cases "doc = []")
  case True
  then show ?thesis by (simp add: formatLrc_def parseLrc_def)
next
  case False
  let ?r = "\<lambda>line. lrcTime line @ text' line"
  have sp: "split_on CHR 0x0A (formatLrc doc) = map ?r doc"
    unfolding formatLrc_def using False assms(1) parsed_line_render(2)
    by (intro split_on_join) auto
  have "map (\<lambda>l. projr (convert_line l)) (map ?r doc) = map Some doc"
    using assms(1) parsed_line_render(1) by (simp add: comp_def)
  then have "filter_Boolean (map (\<lambda>l. projr (convert_line l)) (map ?r doc)) = doc"
    by (simp only: filter_Boolean_Some)
  then show ?thesis
    unfolding parseLrc_Some sp using assms(2)
    by (simp only: sort_lines_def sort_key_id_if_sorted)
qed

lemma is_tag_bracket:
  assumes "is_tag t"
  shows "takeWhile (\<lambda>c. c \<noteq> CHR '']'') (t @ r) @ '']'' = t"
    and "tl (dropWhile (\<lambda>c. c \<noteq> CHR '']'') (t @ r)) = r"
proof -
  from assms obtain m1 m2 s1 s2 fs where d: "is_digit m1" "is_digit m2" "is_digit s1" "is_digit s2"
    "list_all is_digit fs" and t: "t = tag_chars m1 m2 s1 s2 fs"
    unfolding is_tag_def by blast
  let ?b = "CHR ''['' # m1 # m2 # CHR '':'' # s1 # s2 # (if fs = [] then [] else CHR ''.'' # fs)"
  have fs: "CHR '']'' \<notin> set fs"
    using d(5) is_digit_not_special by (auto simp: list_all_iff)
  have b: "\<forall>c\<in>set ?b. c \<noteq> CHR '']''"
    using d(1-4) fs is_digit_not_special by auto
  have t': "t @ r = ?b @ CHR '']'' # r"
    by (simp add: t tag_chars_def)
  have "takeWhile (\<lambda>c. c \<noteq> CHR '']'') (?b @ CHR '']'' # r) = ?b"
    using b by (subst takeWhile_append2) auto
  then show "takeWhile (\<lambda>c. c \<noteq> CHR '']'') (t @ r) @ '']'' = t"
    unfolding t' by (simp add: t tag_chars_def)
  have "dropWhile (\<lambda>c. c \<noteq> CHR '']'') (?b @ CHR '']'' # r) = CHR '']'' # r"
    using b by (simp add: dropWhile_append3)
  then show "tl (dropWhile (\<lambda>c. c \<noteq> CHR '']'') (t @ r)) = r"
    unfolding t' by simp
qed

lemma tag_value_to_seconds:
  assumes "is_tag t"
  shows "to_seconds t = Inr (tag_value t)"
proof -
  from assms obtain m1 m2 s1 s2 fs where d: "is_digit m1" "is_digit m2" "is_digit s1" "is_digit s2"
    "list_all is_digit fs" "length fs \<le> 3" and t: "t = tag_chars m1 m2 s1 s2 fs"
    unfolding is_tag_def by blast
  have tw: "takeWhile is_digit (fs @ '']'') = fs"
    using d(5) not_digit_close by (simp add: takeWhile_append list_all_iff)
  have 1: "take 2 (drop 1 t) = [m1, m2]" "take 2 (drop 4 t) = [s1, s2]"
    by (simp_all add: t tag_chars_def)
  have 2: "takeWhile is_digit (drop 7 t) = fs"
  proof (cases "fs = []")
    case True
    then show ?thesis by (simp add: t tag_chars_def)
  next
    case False
    then show ?thesis using tw by (simp add: t tag_chars_def)
  qed
  have "to_seconds t =
          Inr (of_nat ((10 * digit_val m1 + digit_val m2) * 60)
                + of_nat (10 * digit_val s1 + digit_val s2)
                + of_nat (dec_value fs) / (if length fs = 3 then 1000 else 100))"
    unfolding t using d by (rule to_seconds_tag)
  then show ?thesis
    unfolding tag_value_def 1 2 Let_def by (simp add: dec_value_simps)
qed

lemma tagged_line_iff: "tagged_line l \<longleftrightarrow> match_tag (trim l) \<noteq> None"
proof
  assume "tagged_line l"
  then obtain t r where "trim l = t @ r" "is_tag t"
    unfolding tagged_line_def by blast
  then show "match_tag (trim l) \<noteq> None"
    using is_tag_match[of t r] by simp
next
  assume "match_tag (trim l) \<noteq> None"
  then obtain t r where "match_tag (trim l) = Some (t, r)" by auto
  then show "tagged_line l"
    unfolding tagged_line_def using match_tag_is_tag by blast
qed

lemma convert_line_valid:
  assumes "tagged_line l" "CHR 0x0A \<notin> set l" "CHR 0x0D \<notin> set (trim l)"
  shows "convert_line l = Inr (Some (line_entry l))"
proof -
  from assms(1) obtain t r where tr: "trim l = t @ r" and t: "is_tag t"
    unfolding tagged_line_def by blast
  have "set (trim l) \<subseteq> set l" by (rule set_trim)
  then have "\<forall>c\<in>set (trim l). \<not> line_terminator c"
    using assms(2,3) by (auto simp: line_terminator_def)
  then have r: "\<forall>c\<in>set r. \<not> line_terminator c"
    by (simp add: tr)
  have e: "lineRegex_exec [] = None" by simp
  have "lineRegex_exec (trim l) = Some (t, r)"
    unfolding tr using lineRegex_exec_prefix[OF e t, of r] rest_of_line_id[OF r] by simp
  moreover have "line_tag l = t" "line_text l = trim r"
    unfolding line_tag_def line_text_def tr using is_tag_bracket[OF t] by simp_all
  ultimately show ?thesis
    using tag_value_to_seconds[OF t] by (simp add: convert_line_def line_entry_def)
qed

lemma filter_Boolean_valid:
  assumes "\<forall>l\<in>set ls. (tagged_line l \<or> \<not> contains_tag l) \<and> CHR 0x0A \<notin> set l
             \<and> CHR 0x0D \<notin> set (trim l)"
  shows "filter_Boolean (map (\<lambda>l. projr (convert_line l)) ls)
           = map line_entry (filter tagged_line ls)"
  using assms
proof (induction ls)
  case Nil
  then show ?case by simp
next
  case (Cons l ls)
  show ?case
  proof (cases "tagged_line l")
    case True
    then show ?thesis
      using Cons by (simp add: convert_line_valid)
  next
    case False
    then have "\<not> contains_tag l" using Cons.prems by simp
    then show ?thesis
      using Cons False by (simp add: convert_line_None)
  qed
qed

lemma insort_key_map:
  "insort_key f (g x) (map g xs) = map g (insort_key (\<lambda>y. f (g y)) x xs)"
  by (induction xs) simp_all

lemma sort_key_map: "sort_key f (map g xs) = map g (sort_key (\<lambda>y. f (g y)) xs)"
  by (induction xs) (simp_all add: insort_key_map)

lemma trim_examples:
  "trim '' a'' = ''a''" "trim '' b'' = ''b''" "trim '' c'' = ''c''"
  "trim ''  two '' = ''two''" "trim ''one'' = ''one''" "trim '' two'' = ''two''"
  "trim ''one '' = ''one''"
  by (simp_all add: trim_def is_space_def)

lemma tag_examples:
  "tag_of 0 5 0 0 = ''[00:05]''" "tag_of 0 1 0 0 = ''[00:01]''"
  "tag_of 0 2 1 5 = ''[00:02.5]''" "tag_of 0 2 2 50 = ''[00:02.50]''"
  "tag_of 0 1 3 0 = ''[00:01.000]''"
  by (simp_all add: tag_of_eval del: pad_digits.simps)

lemma convert_examples:
  "convert_line ''[00:05] b'' = Inr (Some \<lparr>timestamp = 5, text' = ''b'', lrcTime = ''[00:05]''\<rparr>)"
  "convert_line ''[00:01] a'' = Inr (Some \<lparr>timestamp = 1, text' = ''a'', lrcTime = ''[00:01]''\<rparr>)"
  "convert_line ''[00:05] c'' = Inr (Some \<lparr>timestamp = 5, text' = ''c'', lrcTime = ''[00:05]''\<rparr>)"
  "convert_line ''[00:01]one'' = Inr (Some \<lparr>timestamp = 1, text' = ''one'', lrcTime = ''[00:01]''\<rparr>)"
  "convert_line ''[00:02.50] two'' =
     Inr (Some \<lparr>timestamp = 2.5, text' = ''two'', lrcTime = ''[00:02.50]''\<rparr>)"
  "convert_line ''[00:01.000]one '' =
     Inr (Some \<lparr>timestamp = 1, text' = ''one'', lrcTime = ''[00:01.000]''\<rparr>)"
  using convert_line_tagged[of 0 5 0 0 "'' b''", unfolded tag_examples]
    convert_line_tagged[of 0 1 0 0 "'' a''", unfolded tag_examples]
    convert_line_tagged[of 0 5 0 0 "'' c''", unfolded tag_examples]
    convert_line_tagged[of 0 1 0 0 "''one''", unfolded tag_examples]
    convert_line_tagged[of 0 2 2 50 "'' two''", unfolded tag_examples]
    convert_line_tagged[of 0 1 3 0 "''one ''", unfolded tag_examples]
  by (simp_all add: trim_examples tag_seconds_def line_terminator_def)

lemma convert_prefixed_example:
  "convert_line ''x [00:02.5]  two '' =
     Inr (Some \<lparr>timestamp = 2.05, text' = ''two'', lrcTime = ''[00:02.5]''\<rparr>)"
proof -
  have p: "\<not> contains_tag ''x ''" by (simp add: contains_tag_iff)
  have t: "is_tag ''[00:02.5]''"
    using is_tag_tag_of[of 1 0 2 5, unfolded tag_examples] by simp
  have s: "to_seconds ''[00:02.5]'' = Inr 2.05"
    using to_seconds_tag_of[of 0 2 1 5, unfolded tag_examples] by (simp add: tag_seconds_def)
  have r: "\<forall>c\<in>set ''  two ''. \<not> line_terminator c" by (simp add: line_terminator_def)
  show ?thesis
    using convert_line_one_line[OF p t s r] by (simp add: trim_examples)
qed

subsection \<open>The retry loop\<close>

lemma attempts_done: "\<not> i < n \<Longrightarrow> attempts f r n i = (Thrown ''Unknown error during transcription process.'', [])"
  by (simp add: attempts.simps)

lemma attempts_Continue:
  "i < n \<Longrightarrow> try_block (f i) (r i) n i = Continue d \<Longrightarrow>
     attempts f r n i = (fst (attempts f r n (Suc i)), Request i # Wait d # snd (attempts f r n (Suc i)))"
  by (subst attempts.simps) (simp add: split_beta)

lemma attempts_Return:
  "i < n \<Longrightarrow> try_block (f i) (r i) n i = Return s \<Longrightarrow>
     attempts f r n i = (Returned s, [Request i])"
  by (subst attempts.simps) simp

lemma attempts_Throw_last:
  "i < n \<Longrightarrow> try_block (f i) (r i) n i = Throw m \<Longrightarrow> i = n - 1 \<Longrightarrow>
     attempts f r n i = (Thrown (failed_after n m), [Request i])"
  by (subst attempts.simps) simp

lemma attempts_Throw_more:
  "i < n \<Longrightarrow> try_block (f i) (r i) n i = Throw m \<Longrightarrow> i \<noteq> n - 1 \<Longrightarrow>
     attempts f r n i = (fst (attempts f r n (Suc i)), Request i # snd (attempts f r n (Suc i)))"
  by (subst attempts.simps) (simp add: split_beta)

lemma attempts_first:
  assumes "i < n"
  shows "\<exists>es. snd (attempts f r n i) = Request i # es"
proof (cases "try_block (f i) (r i) n i")
  case (Continue d)
  show ?thesis
    unfolding attempts_Continue[of i n f r d, OF assms Continue] by simp
next
  case (Return s)
  show ?thesis
    unfolding attempts_Return[of i n f r s, OF assms Return] by simp
next
  case (Throw m)
  show ?thesis
  proof (cases "i = n - 1")
    case True
    show ?thesis
      unfolding attempts_Throw_last[of i n f r m, OF assms Throw True] by simp
  next
    case False
    show ?thesis
      unfolding attempts_Throw_more[of i n f r m, OF assms Throw False] by simp
  qed
qed

lemma try_block_Continue:
  "try_block res x n i = Continue d \<longleftrightarrow>
     (rate_limited res \<and> i < n - 1 \<and> d = 2 ^ i * 1000 + x * 1000)"
  by (auto simp: try_block_def rate_limited_def split: fetch_result.splits body.splits option.splits)

lemma try_block_Return:
  "try_block res x n i = Return s \<Longrightarrow> succeeds res"
  by (auto simp: try_block_def succeeds_def response_ok_def
      split: fetch_result.splits body.splits option.splits if_splits)

lemma try_block_succeeds:
  assumes "res = Response st (Json e (Some t))" "response_ok st" "t \<noteq> []"
  shows "try_block res x n i = Return (trim (strip_fences t))"
  using assms by (auto simp: try_block_def response_ok_def)

lemma try_block_empty:
  assumes "res = Response st (Json e t)" "response_ok st" "t = None \<or> t = Some []"
  shows "try_block res x n i = Throw empty_message"
  using assms by (auto simp: try_block_def response_ok_def)


lemma attempts_reach:
  assumes "k < n" "i \<le> k" "\<forall>j. i \<le> j \<and> j < k \<longrightarrow> \<not> succeeds (f j)"
  shows "\<exists>pre. attempts f r n i = (fst (attempts f r n k), pre @ snd (attempts f r n k))"
  using assms(2,3)
proof (induction "k - i" arbitrary: i)
  case 0
  then have "i = k" by simp
  then show ?case by (intro exI[of _ "[]"]) simp
next
  case (Suc d)
  then have ik: "i < k" and i: "i < n" using assms(1) by simp_all
  have "\<exists>pre. attempts f r n (Suc i) = (fst (attempts f r n k), pre @ snd (attempts f r n k))"
    using Suc by (intro Suc.hyps(1)) auto
  then obtain pre where p: "attempts f r n (Suc i) = (fst (attempts f r n k), pre @ snd (attempts f r n k))"
    by blast
  have ns: "\<not> succeeds (f i)" using Suc.prems(2) ik by simp
  have nl: "i \<noteq> n - 1" using ik assms(1) by simp
  show ?case
  proof (cases "try_block (f i) (r i) n i")
    case (Continue d)
    show ?thesis
      unfolding attempts_Continue[of i n f r d, OF i Continue] p
      by (intro exI[of _ "Request i # Wait d # pre"]) simp
  next
    case (Return s)
    then show ?thesis using ns try_block_Return by blast
  next
    case (Throw m)
    show ?thesis
      unfolding attempts_Throw_more[of i n f r m, OF i Throw nl] p
      by (intro exI[of _ "Request i # pre"]) simp
  qed
qed

lemma attempts_final:
  assumes "i < n"
  shows "\<exists>k. i \<le> k \<and> k < n \<and> snd (attempts f r n i) \<noteq> []
            \<and> last (snd (attempts f r n i)) = Request k
            \<and> (case try_block (f k) (r k) n k of
                  Continue d \<Rightarrow> False
                | Return s \<Rightarrow> fst (attempts f r n i) = Returned s
                | Throw m \<Rightarrow> k = n - 1 \<and> fst (attempts f r n i) = Thrown (failed_after n m))"
  using assms
proof (induction "n - i" arbitrary: i)
  case 0
  then show ?case by simp
next
  case (Suc d)
  note i = \<open>i < n\<close>
  have step: "Suc i < n \<Longrightarrow> \<exists>k. Suc i \<le> k \<and> k < n \<and> snd (attempts f r n (Suc i)) \<noteq> []
            \<and> last (snd (attempts f r n (Suc i))) = Request k
            \<and> (case try_block (f k) (r k) n k of
                  Continue d \<Rightarrow> False
                | Return s \<Rightarrow> fst (attempts f r n (Suc i)) = Returned s
                | Throw m \<Rightarrow> k = n - 1 \<and> fst (attempts f r n (Suc i)) = Thrown (failed_after n m))"
    using Suc.hyps(2) by (intro Suc.hyps(1)) auto
  show ?case
  proof (cases "try_block (f i) (r i) n i")
    case (Continue d)
    then have "Suc i < n" by (auto simp: try_block_Continue)
    from step[OF this] obtain k where k: "Suc i \<le> k" "k < n" "snd (attempts f r n (Suc i)) \<noteq> []"
      "last (snd (attempts f r n (Suc i))) = Request k"
      "(case try_block (f k) (r k) n k of
                  Continue d \<Rightarrow> False
                | Return s \<Rightarrow> fst (attempts f r n (Suc i)) = Returned s
                | Throw m \<Rightarrow> k = n - 1 \<and> fst (attempts f r n (Suc i)) = Thrown (failed_after n m))"
      by blast
    show ?thesis
      unfolding attempts_Continue[of i n f r d, OF i Continue] using k
      by (intro exI[of _ k]) (auto split: step.splits)
  next
    case (Return s)
    show ?thesis
      unfolding attempts_Return[of i n f r s, OF i Return] using i Return
      by (intro exI[of _ i]) simp
  next
    case (Throw m)
    show ?thesis
    proof (cases "i = n - 1")
      case True
      show ?thesis
        unfolding attempts_Throw_last[of i n f r m, OF i Throw True] using i Throw True
        by (intro exI[of _ i]) simp
    next
      case False
      then have "Suc i < n" using i by simp
      from step[OF this] obtain k where k: "Suc i \<le> k" "k < n" "snd (attempts f r n (Suc i)) \<noteq> []"
      "last (snd (attempts f r n (Suc i))) = Request k"
      "(case try_block (f k) (r k) n k of
                  Continue d \<Rightarrow> False
                | Return s \<Rightarrow> fst (attempts f r n (Suc i)) = Returned s
                | Throw m \<Rightarrow> k = n - 1 \<and> fst (attempts f r n (Suc i)) = Thrown (failed_after n m))"
        by blast
      show ?thesis
        unfolding attempts_Throw_more[of i n f r m, OF i Throw False] using k
        by (intro exI[of _ k]) (auto split: step.splits)
    qed
  qed
qed

lemma attempts_waits_ok:
  assumes "\<forall>i. 0 \<le> r i \<and> r i < 1"
  shows "waits_ok f n (snd (attempts f r n i))"
proof (induction "n - i" arbitrary: i)
  case 0
  then show ?case by (simp add: attempts_done)
next
  case (Suc d)
  then have i: "i < n" by simp
  have ih: "waits_ok f n (snd (attempts f r n (Suc i)))"
    using Suc.hyps(2) by (intro Suc.hyps(1)) simp
  show ?case
  proof (cases "try_block (f i) (r i) n i")
    case (Continue d)
    then have "rate_limited (f i)" "i < n - 1" "d = 2 ^ i * 1000 + r i * 1000"
      by (simp_all add: try_block_Continue)
    then show ?thesis
      unfolding attempts_Continue[of i n f r d, OF i Continue] using ih assms by simp
  next
    case (Return s)
    then have "\<not> (rate_limited (f i) \<and> i < n - 1)"
      using try_block_Continue[of "f i" "r i" n i] by auto
    then show ?thesis
      unfolding attempts_Return[of i n f r s, OF i Return] by simp
  next
    case (Throw m)
    then have nr: "\<not> (rate_limited (f i) \<and> i < n - 1)"
      using try_block_Continue[of "f i" "r i" n i] by auto
    show ?thesis
    proof (cases "i = n - 1")
      case True
      then show ?thesis
        unfolding attempts_Throw_last[of i n f r m, OF i Throw True] by simp
    next
      case False
      then have "Suc i < n" using i by simp
      then obtain es where es: "snd (attempts f r n (Suc i)) = Request (Suc i) # es"
        using attempts_first by blast
      show ?thesis
        unfolding attempts_Throw_more[of i n f r m, OF i Throw False] using ih nr
        by (simp add: es)
    qed
  qed
qed

lemma attempts_retry:
  assumes "Request j \<in> set (snd (attempts f r n i))" "\<not> succeeds (f j)" "Suc j < n"
  shows "Request (Suc j) \<in> set (snd (attempts f r n i))"
  using assms(1)
proof (induction "n - i" arbitrary: i)
  case 0
  then show ?case by (simp add: attempts_done)
next
  case (Suc d)
  then have i: "i < n" by simp
  have ih: "Request j \<in> set (snd (attempts f r n (Suc i)))
              \<Longrightarrow> Request (Suc j) \<in> set (snd (attempts f r n (Suc i)))"
    using Suc.hyps(2) by (intro Suc.hyps(1)) simp_all
  have first: "j = i \<Longrightarrow> Request (Suc j) \<in> set (snd (attempts f r n (Suc i)))"
    using attempts_first[of "Suc i" n f r] assms(3) by auto
  show ?case
  proof (cases "try_block (f i) (r i) n i")
    case (Continue d)
    show ?thesis
      using Suc.prems ih first unfolding attempts_Continue[of i n f r d, OF i Continue]
      by auto
  next
    case (Return s)
    then have "succeeds (f i)" by (rule try_block_Return)
    then show ?thesis
      using Suc.prems assms(2) unfolding attempts_Return[of i n f r s, OF i Return]
      by auto
  next
    case (Throw m)
    show ?thesis
    proof (cases "i = n - 1")
      case True
      then show ?thesis
        using Suc.prems assms(3) unfolding attempts_Throw_last[of i n f r m, OF i Throw True]
        by auto
    next
      case False
      show ?thesis
        using Suc.prems ih first unfolding attempts_Throw_more[of i n f r m, OF i Throw False]
        by auto
    qed
  qed
qed

subsection \<open>Fence markers\<close>

lemma backtick_not_space: "\<not> is_space CHR 0x60"
  by (simp add: is_space_def)

lemma has_fence_suffix: "\<not> has_fence (a @ b) \<Longrightarrow> \<not> has_fence b"
proof (induction a)
  case Nil
  then show ?case by simp
next
  case (Cons c a)
  then have "\<not> has_fence (a @ b)" by simp
  then show ?case by (rule Cons.IH)
qed

lemma no_fence_head:
  assumes "\<not> has_fence (s @ [CHR 0x60, CHR 0x60])" "s \<noteq> []"
  shows "take 3 (s @ backticks) \<noteq> backticks"
proof -
  obtain c cs where s: "s = c # cs" using assms(2) by (cases s) auto
  have "take 3 (s @ [CHR 0x60, CHR 0x60]) \<noteq> backticks"
    using assms(1) unfolding s by simp
  moreover have "take 3 ((s @ [CHR 0x60, CHR 0x60]) @ [CHR 0x60]) = take 3 (s @ [CHR 0x60, CHR 0x60])"
    by (subst take_append) (simp add: s)
  then have "take 3 (s @ backticks) = take 3 (s @ [CHR 0x60, CHR 0x60])"
    by (simp add: backticks_def)
  ultimately show ?thesis by simp
qed

lemma dropWhile_space_fence:
  "dropWhile is_space (s @ backticks) = dropWhile is_space s @ backticks"
  by (simp add: dropWhile_append backticks_def backtick_not_space)

lemma fence_at_close: "fence_at backticks = Some []"
  by (simp add: fence_at_def backticks_def backtick_not_space)

lemma take6_take3:
  assumes "take 6 x = backticks @ ''lrc''"
  shows "take 3 x = backticks"
proof -
  have "take 3 (take 6 x) = take 3 x" by simp
  then show ?thesis
    unfolding assms by (simp add: backticks_def)
qed

lemma fence_at_body:
  assumes "\<not> has_fence (s @ [CHR 0x60, CHR 0x60])" "s \<noteq> []"
  shows "fence_at (s @ backticks) = (if list_all is_space s then Some [] else None)"
proof -
  have h: "take 3 (s @ backticks) \<noteq> backticks"
    using assms by (rule no_fence_head)
  have a1: "take 6 (s @ backticks) \<noteq> backticks @ ''lrc''"
    using h take6_take3 by blast
  show ?thesis
  proof (cases "list_all is_space s")
    case True
    then have "dropWhile is_space s = []" by (simp add: list_all_iff)
    then have "dropWhile is_space (s @ backticks) = backticks"
      by (simp only: dropWhile_space_fence append_Nil)
    then show ?thesis
      using a1 True by (simp add: fence_at_def backticks_def)
  next
    case False
    let ?t = "dropWhile is_space s"
    have ne: "?t \<noteq> []" using False by (simp add: list_all_iff)
    have "s = takeWhile is_space s @ ?t" by simp
    then have "\<not> has_fence (?t @ [CHR 0x60, CHR 0x60])"
      using assms(1) has_fence_suffix[of "takeWhile is_space s" "?t @ [CHR 0x60, CHR 0x60]"]
      by (metis append.assoc)
    then have "take 3 (?t @ backticks) \<noteq> backticks"
      using ne by (rule no_fence_head)
    then show ?thesis
      using a1 False by (simp add: fence_at_def dropWhile_space_fence)
  qed
qed

lemma rtrim_Cons:
  "\<not> list_all is_space (c # cs) \<Longrightarrow>
     rev (dropWhile is_space (rev (c # cs))) = c # rev (dropWhile is_space (rev cs))"
  by (auto simp: dropWhile_append list_all_iff)

lemma strip_fences_body:
  "\<not> has_fence (s @ [CHR 0x60, CHR 0x60]) \<Longrightarrow>
     strip_fences (s @ backticks) = rev (dropWhile is_space (rev s))"
proof (induction s)
  case Nil
  have "strip_fences backticks = []"
    using fence_at_close by (simp add: backticks_def)
  then show ?case by simp
next
  case (Cons c cs)
  have ih: "strip_fences (cs @ backticks) = rev (dropWhile is_space (rev cs))"
    using Cons.prems has_fence_suffix[of "[c]" "cs @ [CHR 0x60, CHR 0x60]"]
    by (intro Cons.IH) simp
  have fa: "fence_at ((c # cs) @ backticks) = (if list_all is_space (c # cs) then Some [] else None)"
    using Cons.prems by (intro fence_at_body) simp_all
  show ?case
  proof (cases "list_all is_space (c # cs)")
    case True
    then have "dropWhile is_space (rev (c # cs)) = []"
      by (simp add: list_all_iff)
    then have "rev (dropWhile is_space (rev (c # cs))) = []" by simp
    moreover have "strip_fences ((c # cs) @ backticks) = []"
      using fa True by simp
    ultimately show ?thesis by simp
  next
    case False
    have "strip_fences ((c # cs) @ backticks) = c # strip_fences (cs @ backticks)"
      using fa False by simp
    then show ?thesis
      unfolding ih rtrim_Cons[OF False] .
  qed
qed

lemma strip_fences_fenced:
  assumes "\<not> has_fence (body @ [CHR 0x60, CHR 0x60])"
  shows "trim (strip_fences (backticks @ ''lrc'' @ body @ backticks)) = trim body"
proof -
  let ?t = "dropWhile is_space body"
  have "body = takeWhile is_space body @ ?t" by simp
  then have nf: "\<not> has_fence (?t @ [CHR 0x60, CHR 0x60])"
    using assms has_fence_suffix[of "takeWhile is_space body" "?t @ [CHR 0x60, CHR 0x60]"]
    by (metis append.assoc)
  have "fence_at (backticks @ ''lrc'' @ body @ backticks) = Some (?t @ backticks)"
    by (simp add: fence_at_def backticks_def dropWhile_space_fence[unfolded backticks_def])
  then have "strip_fences (backticks @ ''lrc'' @ body @ backticks) = strip_fences (?t @ backticks)"
    by (simp add: backticks_def)
  also have "\<dots> = trim body"
    unfolding strip_fences_body[OF nf] by (simp add: trim_def)
  finally show ?thesis by (simp add: trim_idem)
qed

lemma strip_fences_plain: "CHR 0x60 \<notin> set s \<Longrightarrow> strip_fences s = s"
proof (induction s)
  case Nil
  then show ?case by simp
next
  case (Cons c cs)
  have 1: "take 6 (c # cs) \<noteq> backticks @ ''lrc''"
    using Cons.prems by (auto simp: backticks_def)
  have "dropWhile is_space (c # cs) = [] \<or> hd (dropWhile is_space (c # cs)) \<in> set (c # cs)"
    by (metis hd_in_set set_dropWhileD)
  then have 2: "take 3 (dropWhile is_space (c # cs)) \<noteq> backticks"
    using Cons.prems by (cases "dropWhile is_space (c # cs)") (auto simp: backticks_def)
  have "fence_at (c # cs) = None"
    using 1 2 by (simp add: fence_at_def)
  then show ?case using Cons by simp
qed

lemma reach_from_start:
  assumes "k < n" "list_all (\<lambda>j. \<not> succeeds (f j)) [0..<k]"
  shows "\<exists>pre. attempts f r n 0 = (fst (attempts f r n k), pre @ snd (attempts f r n k))"
  using assms by (intro attempts_reach) (auto simp: list_all_iff)


lemma empty_not_default: "empty_message \<noteq> default_message st"
  by (simp add: empty_message_def default_message_def)


lemma rate_limited_continue:
  assumes "rate_limited (f i)" "i < n - 1"
  shows "attempts f r n i
           = (fst (attempts f r n (Suc i)),
              Request i # Wait (2 ^ i * 1000 + r i * 1000) # snd (attempts f r n (Suc i)))"
proof -
  have "try_block (f i) (r i) n i = Continue (2 ^ i * 1000 + r i * 1000)"
    using assms by (simp add: try_block_Continue)
  moreover have "i < n" using assms(2) by simp
  ultimately show ?thesis by (rule attempts_Continue[rotated])
qed

lemma rate_limited_last:
  assumes "rate_limited (f i)" "i = n - 1" "i < n"
  shows "\<exists>cause. attempts f r n i = (Thrown (failed_after n cause), [Request i])"
proof -
  have "\<not> i < n - 1" using assms(2) by simp
  then have nc: "\<And>d. try_block (f i) (r i) n i \<noteq> Continue d"
    unfolding try_block_Continue by blast
  have nr: "\<And>s. try_block (f i) (r i) n i \<noteq> Return s"
    using assms(1) try_block_Return[of "f i" "r i" n i]
    by (auto simp: rate_limited_def succeeds_def response_ok_def
        split: fetch_result.splits body.splits option.splits)
  obtain c where "try_block (f i) (r i) n i = Throw c"
    using nc nr by (cases "try_block (f i) (r i) n i") auto
  then show ?thesis
    using attempts_Throw_last[of i n f r c] assms(2,3) by blast
qed

subsection \<open>The answer to the last attempt\<close>




lemma unknown_not_failed_after:
  "''Unknown error during transcription process.'' \<noteq> failed_after n c"
  by (simp add: failed_after_def)




section \<open>The claims of the specification\<close>

subsection \<open>Parsing what formatLrc writes\<close>

text \<open>
  Claim C1. For a document \<open>doc\<close> that a call of \<open>parseLrc\<close> returned, parsing the text
  that \<open>formatLrc\<close> makes of it gives \<open>doc\<close> again: the same lines (timestamp, text and
  tag) in the same order. The tag of each line, parsed on its own, gives the timestamp of
  that line.
\<close>

theorem parse_format_roundtrip:
  assumes "parseLrc T = Inr doc"
  shows "parseLrc (Some (formatLrc doc)) = Inr doc
     \<and> (\<forall>l\<in>set doc. parseLrc (Some (lrcTime l)) = Inr [l\<lparr>text' := []\<rparr>])"
proof
  note p = parseLrc_lines_parsed[OF assms]
  show "parseLrc (Some (formatLrc doc)) = Inr doc"
    using p by (rule parse_format_parsed)
  show "\<forall>l\<in>set doc. parseLrc (Some (lrcTime l)) = Inr [l\<lparr>text' := []\<rparr>]"
  proof
    fix l assume "l \<in> set doc"
    with p(1) have pl: "parsed_line l" by blast
    then have q: "parsed_line (l\<lparr>text' := []\<rparr>)"
      by (simp add: parsed_line_def trim_Nil)
    have "parseLrc (Some (formatLrc [l\<lparr>text' := []\<rparr>])) = Inr [l\<lparr>text' := []\<rparr>]"
      using q by (intro parse_format_parsed) simp_all
    then show "parseLrc (Some (lrcTime l)) = Inr [l\<lparr>text' := []\<rparr>]"
      by (simp add: formatLrc_def)
  qed
qed

theorem parse_format_roundtrip_witness:
  "parseLrc (Some (''x [00:02.5]  two '' @ [CHR 0x0A] @ ''[00:01]one''))
     = Inr [\<lparr>timestamp = 1, text' = ''one'', lrcTime = ''[00:01]''\<rparr>,
            \<lparr>timestamp = 2.05, text' = ''two'', lrcTime = ''[00:02.5]''\<rparr>]
   \<and> formatLrc [\<lparr>timestamp = 1, text' = ''one'', lrcTime = ''[00:01]''\<rparr>,
            \<lparr>timestamp = 2.05, text' = ''two'', lrcTime = ''[00:02.5]''\<rparr>]
       = ''[00:01]one'' @ [CHR 0x0A] @ ''[00:02.5]two''
   \<and> parseLrc (Some (''[00:01]one'' @ [CHR 0x0A] @ ''[00:02.5]two''))
     = Inr [\<lparr>timestamp = 1, text' = ''one'', lrcTime = ''[00:01]''\<rparr>,
            \<lparr>timestamp = 2.05, text' = ''two'', lrcTime = ''[00:02.5]''\<rparr>]
   \<and> parseLrc (Some ''[00:02.5]'') = Inr [\<lparr>timestamp = 2.05, text' = [], lrcTime = ''[00:02.5]''\<rparr>]"
proof -
  let ?S = "''x [00:02.5]  two '' @ [CHR 0x0A] @ ''[00:01]one''"
  let ?doc = "[\<lparr>timestamp = 1, text' = ''one'', lrcTime = ''[00:01]''\<rparr>,
            \<lparr>timestamp = 2.05, text' = ''two'', lrcTime = ''[00:02.5]''\<rparr>]"
  have sp: "split_on CHR 0x0A ?S = [''x [00:02.5]  two '', ''[00:01]one'']"
    by simp
  have h: "parseLrc (Some ?S) = Inr ?doc"
    unfolding parseLrc_Some sp
    by (simp add: convert_examples convert_prefixed_example sort_lines_def)
  have f: "formatLrc ?doc = ''[00:01]one'' @ [CHR 0x0A] @ ''[00:02.5]two''"
    by (simp add: formatLrc_def)
  from parse_format_roundtrip[OF h] h f show ?thesis
    by simp
qed

subsection \<open>Error responses\<close>




subsection \<open>Retries and delays\<close>

text \<open>
  Claim C3, as the specification states it, fails in its first part: the code does not
  retry on the rate-limit status only. A response of status 503 in the first of five
  attempts is followed by a second request, with no delay, and the call returns the text
  of the second response.
\<close>

theorem retry_on_other_failure_counterexample:
  "transcribeAudio (error_then_text 503 None ''[00:00.00] hi'') no_jitter ''QUJD'' ''audio/wav'' 5
   = (Returned ''[00:00.00] hi'', [Request 0, Request 1])"
proof -
  let ?f = "error_then_text 503 None ''[00:00.00] hi'' ''QUJD'' ''audio/wav''"
  have c: "strip_fences ''[00:00.00] hi'' = ''[00:00.00] hi''"
    by (rule strip_fences_plain) simp
  have t0: "try_block (?f 0) (no_jitter 0) 5 0 = Throw (default_message 503)"
    by (simp add: try_block_def response_ok_def error_then_text_def)
  have t1: "try_block (?f 1) (no_jitter 1) 5 1 = Return ''[00:00.00] hi''"
    by (simp add: try_block_def response_ok_def error_then_text_def c trim_def is_space_def
        del: strip_fences.simps)
  have a1: "attempts ?f no_jitter 5 1 = (Returned ''[00:00.00] hi'', [Request 1])"
    using t1 by (intro attempts_Return) simp_all
  have "attempts ?f no_jitter 5 0 = (Returned ''[00:00.00] hi'', [Request 0, Request 1])"
    using attempts_Throw_more[of 0 5 ?f no_jitter, OF _ t0] a1 by simp
  then show ?thesis
    by (simp add: transcribeAudio_def)
qed

text \<open>
  Claim C3, amended. The call waits before a retry exactly after a request that was
  answered with the rate-limit status 429 while an attempt remains, and the delay it asks
  for after attempt \<open>i\<close> (counted from 0) is \<open>2 ^ i * 1000\<close> milliseconds plus a jitter
  of at least 0 and less than 1000; every other attempt that fails and is not the last
  is followed by the next attempt with no delay. With an endpoint that answers 429 twice
  and then succeeds, the call with five attempts returns the cleaned text of the third
  response after exactly two delays; with an endpoint that always answers 429, the call
  with three attempts fails with \<open>Failed to transcribe audio after 3 attempts\<close> after
  exactly three requests.
\<close>

theorem retry_backoff:
  assumes "\<forall>i. 0 \<le> rnd i \<and> rnd i < 1"
    and "twice a m 0 = Response 429 b0" "twice a m 1 = Response 429 b1"
    and "twice a m 2 = Response st (Json e (Some t))" "response_ok st" "t \<noteq> []"
    and "\<forall>i. rate_limited (always a m i)"
  shows "waits_ok (fetch a m) maxRetries (snd (transcribeAudio fetch rnd a m maxRetries))
     \<and> (\<forall>j. Request j \<in> set (snd (transcribeAudio fetch rnd a m maxRetries))
            \<and> \<not> succeeds (fetch a m j) \<and> Suc j < maxRetries
            \<longrightarrow> Request (Suc j) \<in> set (snd (transcribeAudio fetch rnd a m maxRetries)))
     \<and> transcribeAudio twice rnd a m 5
         = (Returned (trim (strip_fences t)),
            [Request 0, Wait (1000 + rnd 0 * 1000), Request 1, Wait (2000 + rnd 1 * 1000),
             Request 2])
     \<and> (\<exists>cause. transcribeAudio always rnd a m 3
         = (Thrown (failed_after 3 cause),
            [Request 0, Wait (1000 + rnd 0 * 1000), Request 1, Wait (2000 + rnd 1 * 1000),
             Request 2]))"
proof (intro conjI)
  show "waits_ok (fetch a m) maxRetries (snd (transcribeAudio fetch rnd a m maxRetries))"
    unfolding transcribeAudio_def using assms(1) by (rule attempts_waits_ok)
next
  show "\<forall>j. Request j \<in> set (snd (transcribeAudio fetch rnd a m maxRetries))
            \<and> \<not> succeeds (fetch a m j) \<and> Suc j < maxRetries
            \<longrightarrow> Request (Suc j) \<in> set (snd (transcribeAudio fetch rnd a m maxRetries))"
    unfolding transcribeAudio_def using attempts_retry by blast
next
  let ?f = "twice a m"
  have r: "rate_limited (?f 0)" "rate_limited (?f 1)"
    using assms(2,3) by (simp_all add: rate_limited_def)
  have "try_block (?f 2) (rnd 2) 5 2 = Return (trim (strip_fences t))"
    using assms(4-6) by (rule try_block_succeeds)
  then have a2: "attempts ?f rnd 5 2 = (Returned (trim (strip_fences t)), [Request 2])"
    by (intro attempts_Return) simp_all
  have a1: "attempts ?f rnd 5 1
              = (Returned (trim (strip_fences t)), [Request 1, Wait (2000 + rnd 1 * 1000), Request 2])"
    using rate_limited_continue[of ?f 1 5 rnd, OF r(2)] a2 by (simp add: numeral_2_eq_2)
  have a0: "attempts ?f rnd 5 0
              = (Returned (trim (strip_fences t)),
                 [Request 0, Wait (1000 + rnd 0 * 1000), Request 1, Wait (2000 + rnd 1 * 1000),
                  Request 2])"
    using rate_limited_continue[of ?f 0 5 rnd, OF r(1)] a1 by simp
  show "transcribeAudio twice rnd a m 5
         = (Returned (trim (strip_fences t)),
            [Request 0, Wait (1000 + rnd 0 * 1000), Request 1, Wait (2000 + rnd 1 * 1000),
             Request 2])"
    unfolding transcribeAudio_def by (rule a0)
next
  let ?f = "always a m"
  have r: "rate_limited (?f i)" for i using assms(7) by simp
  obtain cause where a2: "attempts ?f rnd 3 2 = (Thrown (failed_after 3 cause), [Request 2])"
    using rate_limited_last[of ?f 2 3 rnd, OF r] by auto
  have a1: "attempts ?f rnd 3 1
              = (Thrown (failed_after 3 cause), [Request 1, Wait (2000 + rnd 1 * 1000), Request 2])"
    using rate_limited_continue[of ?f 1 3 rnd, OF r] a2 by (simp add: numeral_2_eq_2)
  have a0: "attempts ?f rnd 3 0
              = (Thrown (failed_after 3 cause),
                 [Request 0, Wait (1000 + rnd 0 * 1000), Request 1, Wait (2000 + rnd 1 * 1000),
                  Request 2])"
    using rate_limited_continue[of ?f 0 3 rnd, OF r] a1 by simp
  show "\<exists>cause. transcribeAudio always rnd a m 3
         = (Thrown (failed_after 3 cause),
            [Request 0, Wait (1000 + rnd 0 * 1000), Request 1, Wait (2000 + rnd 1 * 1000),
             Request 2])"
    unfolding transcribeAudio_def using a0 by blast
qed

theorem retry_backoff_witness:
  "waits_ok ((\<lambda>a m i. if i = 0 then Response 429 (Json None None)
                else if i = 1 then Response 503 (Json None None)
                else Response 200 (Json None (Some ''[00:00.00] hi''))) ''QUJD'' ''audio/wav'') 5
     (snd (transcribeAudio (\<lambda>a m i. if i = 0 then Response 429 (Json None None)
                else if i = 1 then Response 503 (Json None None)
                else Response 200 (Json None (Some ''[00:00.00] hi'')))
            (\<lambda>i. 1 / 2) ''QUJD'' ''audio/wav'' 5))
   \<and> transcribeAudio (\<lambda>a m i. if i = 0 then Response 429 (Json None None)
                else if i = 1 then Response 503 (Json None None)
                else Response 200 (Json None (Some ''[00:00.00] hi'')))
            (\<lambda>i. 1 / 2) ''QUJD'' ''audio/wav'' 5
       = (Returned ''[00:00.00] hi'', [Request 0, Wait 1500, Request 1, Request 2])
   \<and> transcribeAudio (\<lambda>a m i. if i < 2 then Response 429 (Json None None)
                else Response 200 (Json None (Some ''[00:00.00] hi'')))
         (\<lambda>i. 1 / 2) ''QUJD'' ''audio/wav'' 5
       = (Returned ''[00:00.00] hi'', [Request 0, Wait 1500, Request 1, Wait 2500, Request 2])
   \<and> (\<exists>cause. transcribeAudio (\<lambda>a m i. Response 429 (Json (Some ''Quota exceeded'') None))
         (\<lambda>i. 1 / 2) ''QUJD'' ''audio/wav'' 3
       = (Thrown (failed_after 3 cause), [Request 0, Wait 1500, Request 1, Wait 2500, Request 2]))"
proof -
  let ?fetch = "\<lambda>(a::string) (m::string) (i::nat). if i = 0 then Response 429 (Json None None)
                else if i = 1 then Response 503 (Json None None)
                else Response 200 (Json None (Some ''[00:00.00] hi''))"
  let ?twice = "\<lambda>(a::string) (m::string) (i::nat). if i < 2 then Response 429 (Json None None)
                else Response 200 (Json None (Some ''[00:00.00] hi''))"
  let ?always = "\<lambda>(a::string) (m::string) (i::nat). Response 429 (Json (Some ''Quota exceeded'') None)"
  let ?rnd = "\<lambda>i::nat. 1 / 2 :: rat"
  have h1: "\<forall>i. 0 \<le> ?rnd i \<and> ?rnd i < 1" by simp
  have h2: "?twice ''QUJD'' ''audio/wav'' 0 = Response 429 (Json None None)" by simp
  have h3: "?twice ''QUJD'' ''audio/wav'' 1 = Response 429 (Json None None)" by simp
  have h4: "?twice ''QUJD'' ''audio/wav'' 2 = Response 200 (Json None (Some ''[00:00.00] hi''))"
    by simp
  have h5: "response_ok 200" by (simp add: response_ok_def)
  have h6: "''[00:00.00] hi'' \<noteq> []" by simp
  have h7: "\<forall>i. rate_limited (?always ''QUJD'' ''audio/wav'' i)"
    by (simp add: rate_limited_def)
  have c: "trim (strip_fences ''[00:00.00] hi'') = ''[00:00.00] hi''"
    by (subst strip_fences_plain) (simp_all add: trim_def is_space_def)
  note w = retry_backoff[of ?rnd ?twice "''QUJD''" "''audio/wav''" "Json None None" "Json None None"
      200 None "''[00:00.00] hi''" ?always ?fetch 5, OF h1 h2 h3 h4 h5 h6 h7, unfolded c]
  have e: "(1000 + 1 / 2 * 1000 :: rat) = 1500" "(2000 + 1 / 2 * 1000 :: rat) = 2500"
    by simp_all
  let ?f = "?fetch ''QUJD'' ''audio/wav''"
  have t0: "try_block (?f 0) (?rnd 0) 5 0 = Continue 1500"
    by (simp add: try_block_def)
  have t1: "try_block (?f 1) (?rnd 1) 5 1 = Throw (default_message 503)"
    by (simp add: try_block_def response_ok_def)
  have t2: "try_block (?f 2) (?rnd 2) 5 2 = Return ''[00:00.00] hi''"
    using try_block_succeeds[of "?f 2" 200 None "''[00:00.00] hi''" "?rnd 2" 5 2] h5
    by (simp add: c del: strip_fences.simps)
  have a2: "attempts ?f ?rnd 5 2 = (Returned ''[00:00.00] hi'', [Request 2])"
    using t2 by (intro attempts_Return) simp_all
  have a1: "attempts ?f ?rnd 5 1 = (Returned ''[00:00.00] hi'', [Request 1, Request 2])"
    using attempts_Throw_more[of 1 5 ?f ?rnd, OF _ t1] a2 by (simp add: numeral_2_eq_2)
  have a0: "attempts ?f ?rnd 5 0
              = (Returned ''[00:00.00] hi'', [Request 0, Wait 1500, Request 1, Request 2])"
    using attempts_Continue[of 0 5 ?f ?rnd, OF _ t0] a1 by simp
  have run: "transcribeAudio ?fetch ?rnd ''QUJD'' ''audio/wav'' 5
       = (Returned ''[00:00.00] hi'', [Request 0, Wait 1500, Request 1, Request 2])"
    unfolding transcribeAudio_def by (rule a0)
  from w run show ?thesis
    unfolding e by blast
qed

subsection \<open>Formatting what parseLrc reads\<close>

text \<open>
  Claim C4. For valid raw LRC text \<open>T\<close> (every line begins with its tag or holds no tag,
  and holds no carriage return inside), the text \<open>formatLrc\<close> makes of the parsed
  document is made of the recognizable tagged lines of \<open>T\<close>, each with the content of its
  line (the tag, then the trimmed text), in the order of a stable sort by the seconds of
  their tags.
\<close>

theorem format_parse_tagged_lines:
  assumes "valid_lrc T" "parseLrc (Some T) = Inr doc"
  shows "formatLrc doc =
           join_with CHR 0x0A
             (map (\<lambda>l. line_tag l @ line_text l)
                (sort_key (\<lambda>l. tag_value (line_tag l))
                   (filter tagged_line (split_on CHR 0x0A T))))"
proof -
  let ?ls = "split_on CHR 0x0A T"
  have v: "\<forall>l\<in>set ?ls. (tagged_line l \<or> \<not> contains_tag l) \<and> CHR 0x0A \<notin> set l
             \<and> CHR 0x0D \<notin> set (trim l)"
    using assms(1) split_on_no_sep_inside[of _ "CHR 0x0A" T]
    by (auto simp: valid_lrc_def list_all_iff)
  have "doc = sort_key timestamp (map line_entry (filter tagged_line ?ls))"
    using assms(2) unfolding parseLrc_Some filter_Boolean_valid[OF v]
    by (simp add: sort_lines_def)
  also have "\<dots> = map line_entry (sort_key (\<lambda>l. tag_value (line_tag l)) (filter tagged_line ?ls))"
    by (simp add: sort_key_map line_entry_def)
  finally show ?thesis
    by (simp add: formatLrc_def comp_def line_entry_def)
qed

theorem format_parse_tagged_lines_witness:
  "valid_lrc (''[00:02.50] two'' @ [CHR 0x0A] @ ''meta'' @ [CHR 0x0A] @ ''[00:01.000]one '')
   \<and> parseLrc (Some (''[00:02.50] two'' @ [CHR 0x0A] @ ''meta'' @ [CHR 0x0A] @ ''[00:01.000]one ''))
       = Inr [\<lparr>timestamp = 1, text' = ''one'', lrcTime = ''[00:01.000]''\<rparr>,
              \<lparr>timestamp = 2.5, text' = ''two'', lrcTime = ''[00:02.50]''\<rparr>]
   \<and> formatLrc [\<lparr>timestamp = 1, text' = ''one'', lrcTime = ''[00:01.000]''\<rparr>,
              \<lparr>timestamp = 2.5, text' = ''two'', lrcTime = ''[00:02.50]''\<rparr>]
       = join_with CHR 0x0A
             (map (\<lambda>l. line_tag l @ line_text l)
                (sort_key (\<lambda>l. tag_value (line_tag l))
                   (filter tagged_line [''[00:02.50] two'', ''meta'', ''[00:01.000]one ''])))
   \<and> formatLrc [\<lparr>timestamp = 1, text' = ''one'', lrcTime = ''[00:01.000]''\<rparr>,
              \<lparr>timestamp = 2.5, text' = ''two'', lrcTime = ''[00:02.50]''\<rparr>]
       = ''[00:01.000]one'' @ [CHR 0x0A] @ ''[00:02.50]two''"
proof -
  let ?S = "''[00:02.50] two'' @ [CHR 0x0A] @ ''meta'' @ [CHR 0x0A] @ ''[00:01.000]one ''"
  let ?doc = "[\<lparr>timestamp = 1, text' = ''one'', lrcTime = ''[00:01.000]''\<rparr>,
              \<lparr>timestamp = 2.5, text' = ''two'', lrcTime = ''[00:02.50]''\<rparr>]"
  have sp: "split_on CHR 0x0A ?S = [''[00:02.50] two'', ''meta'', ''[00:01.000]one '']"
    by simp
  have m: "\<not> contains_tag ''meta''" by (simp add: contains_tag_iff)
  have tl: "tagged_line ''[00:02.50] two''" "tagged_line ''[00:01.000]one ''"
    by (simp_all add: tagged_line_iff trim_def is_space_def is_digit_def match_close_def)
  have v: "valid_lrc ?S"
    unfolding valid_lrc_def sp using m tl by (simp add: trim_def is_space_def)
  have h: "parseLrc (Some ?S) = Inr ?doc"
    unfolding parseLrc_Some sp
    by (simp add: convert_examples convert_line_None[OF m] sort_lines_def)
  have f: "formatLrc ?doc = ''[00:01.000]one'' @ [CHR 0x0A] @ ''[00:02.50]two''"
    by (simp add: formatLrc_def)
  from format_parse_tagged_lines[OF v h, unfolded sp] v h f show ?thesis
    by simp
qed

subsection \<open>The seconds of a tag\<close>



subsection \<open>The order of the lines\<close>

text \<open>
  Claim C6. The list \<open>parseLrc\<close> returns is the list of the parsed lines in ascending
  order of \<open>timestamp\<close>, and the sort is stable: the entries of any one timestamp stand
  in the order of their lines in the input (\<open>vs\<close> is the array before
  \<open>.filter(Boolean).sort(...)\<close>). The text \<open>[00:10.123] a\<close>, line feed,
  \<open>[00:05.000] b\<close> gives \<open>b\<close> (5 seconds) before \<open>a\<close> (10.123 seconds).
\<close>

theorem parse_sorted_stable:
  assumes "map_lines (split_on CHR 0x0A s) = Inr vs" "parseLrc (Some s) = Inr doc"
  shows "sorted (map timestamp doc) \<and> mset doc = mset (filter_Boolean vs)
     \<and> (\<forall>t. filter (\<lambda>l. timestamp l = t) doc = filter (\<lambda>l. timestamp l = t) (filter_Boolean vs))
     \<and> parseLrc (Some (''[00:10.123] a'' @ [CHR 0x0A] @ ''[00:05.000] b'')) =
          Inr [\<lparr>timestamp = 5, text' = ''b'', lrcTime = ''[00:05.000]''\<rparr>,
               \<lparr>timestamp = 10.123, text' = ''a'', lrcTime = ''[00:10.123]''\<rparr>]"
proof -
  have vs: "vs = map (\<lambda>l. projr (convert_line l)) (split_on CHR 0x0A s)"
    using assms(1) by (simp add: map_lines_total)
  have doc: "doc = sort_key timestamp (filter_Boolean vs)"
    using assms(2) unfolding parseLrc_Some vs by (simp add: sort_lines_def)
  have ta: "tag_of 0 10 3 123 = ''[00:10.123]''"
    by (simp add: tag_of_eval del: pad_digits.simps)
  have tb: "tag_of 0 5 3 0 = ''[00:05.000]''"
    by (simp add: tag_of_eval del: pad_digits.simps)
  have e: "\<not> contains_tag []" by (simp add: contains_tag_iff)
  have ca: "convert_line ''[00:10.123] a'' =
              Inr (Some \<lparr>timestamp = 10.123, text' = ''a'', lrcTime = ''[00:10.123]''\<rparr>)"
    using convert_line_one_line[OF e is_tag_tag_of to_seconds_tag_of, of 3 0 10 123 "'' a''", unfolded ta]
    by (simp add: tag_seconds_def trim_def is_space_def line_terminator_def)
  have cb: "convert_line ''[00:05.000] b'' =
              Inr (Some \<lparr>timestamp = 5, text' = ''b'', lrcTime = ''[00:05.000]''\<rparr>)"
    using convert_line_one_line[OF e is_tag_tag_of to_seconds_tag_of, of 3 0 5 0 "'' b''", unfolded tb]
    by (simp add: tag_seconds_def trim_def is_space_def line_terminator_def)
  have sp: "split_on CHR 0x0A (''[00:10.123] a'' @ [CHR 0x0A] @ ''[00:05.000] b'')
              = [''[00:10.123] a'', ''[00:05.000] b'']"
    by simp
  have ex: "parseLrc (Some (''[00:10.123] a'' @ [CHR 0x0A] @ ''[00:05.000] b'')) =
          Inr [\<lparr>timestamp = 5, text' = ''b'', lrcTime = ''[00:05.000]''\<rparr>,
               \<lparr>timestamp = 10.123, text' = ''a'', lrcTime = ''[00:10.123]''\<rparr>]"
    unfolding parseLrc_Some sp by (simp add: ca cb sort_lines_def)
  show ?thesis
    unfolding doc using ex by (simp add: sort_key_stable)
qed

theorem parse_sorted_stable_witness:
  "map_lines (split_on CHR 0x0A (''[00:05] b'' @ [CHR 0x0A] @ ''[00:01] a'' @ [CHR 0x0A] @ ''[00:05] c''))
     = Inr [Some \<lparr>timestamp = 5, text' = ''b'', lrcTime = ''[00:05]''\<rparr>,
            Some \<lparr>timestamp = 1, text' = ''a'', lrcTime = ''[00:01]''\<rparr>,
            Some \<lparr>timestamp = 5, text' = ''c'', lrcTime = ''[00:05]''\<rparr>]
   \<and> parseLrc (Some (''[00:05] b'' @ [CHR 0x0A] @ ''[00:01] a'' @ [CHR 0x0A] @ ''[00:05] c''))
     = Inr [\<lparr>timestamp = 1, text' = ''a'', lrcTime = ''[00:01]''\<rparr>,
            \<lparr>timestamp = 5, text' = ''b'', lrcTime = ''[00:05]''\<rparr>,
            \<lparr>timestamp = 5, text' = ''c'', lrcTime = ''[00:05]''\<rparr>]
   \<and> sorted (map timestamp [\<lparr>timestamp = 1, text' = ''a'', lrcTime = ''[00:01]''\<rparr>,
            \<lparr>timestamp = 5, text' = ''b'', lrcTime = ''[00:05]''\<rparr>,
            \<lparr>timestamp = 5, text' = ''c'', lrcTime = ''[00:05]''\<rparr>])"
proof -
  let ?S = "''[00:05] b'' @ [CHR 0x0A] @ ''[00:01] a'' @ [CHR 0x0A] @ ''[00:05] c''"
  have sp: "split_on CHR 0x0A ?S = [''[00:05] b'', ''[00:01] a'', ''[00:05] c'']"
    by simp
  have h1: "map_lines (split_on CHR 0x0A ?S)
     = Inr [Some \<lparr>timestamp = 5, text' = ''b'', lrcTime = ''[00:05]''\<rparr>,
            Some \<lparr>timestamp = 1, text' = ''a'', lrcTime = ''[00:01]''\<rparr>,
            Some \<lparr>timestamp = 5, text' = ''c'', lrcTime = ''[00:05]''\<rparr>]"
    unfolding sp by (simp add: convert_examples)
  have h2: "parseLrc (Some ?S)
     = Inr [\<lparr>timestamp = 1, text' = ''a'', lrcTime = ''[00:01]''\<rparr>,
            \<lparr>timestamp = 5, text' = ''b'', lrcTime = ''[00:05]''\<rparr>,
            \<lparr>timestamp = 5, text' = ''c'', lrcTime = ''[00:05]''\<rparr>]"
    unfolding parseLrc_def using h1 by (simp add: sort_lines_def del: split_on.simps)
  from parse_sorted_stable[OF h1 h2] h1 h2 show ?thesis
    by blast
qed

subsection \<open>Input without tags\<close>

text \<open>
  Claim C7. \<open>parseLrc\<close> never fails: \<open>null\<close> and the empty string give the empty
  list, every input gives a list (no exception and no NaN timestamp), the list has one
  entry for each line that holds a tag, so the other lines are dropped, and
  \<open>no tag here\<close> gives the empty list.
\<close>

theorem parse_never_fails:
  "parseLrc None = Inr [] \<and> parseLrc (Some []) = Inr []
     \<and> (\<exists>doc. parseLrc T = Inr doc)
     \<and> (\<exists>doc. parseLrc (Some s) = Inr doc
            \<and> length doc = length (filter contains_tag (split_on CHR 0x0A s)))
     \<and> parseLrc (Some ''no tag here'') = Inr []"
proof (intro conjI)
  show "parseLrc None = Inr []" "parseLrc (Some []) = Inr []"
    by (simp_all add: parseLrc_def)
  show "\<exists>doc. parseLrc T = Inr doc"
  proof (cases T)
    case None
    then show ?thesis by (simp add: parseLrc_def)
  next
    case (Some a)
    then show ?thesis by (simp add: parseLrc_Some)
  qed
  have len: "length (filter_Boolean (map (\<lambda>l. projr (convert_line l)) ls))
               = length (filter contains_tag ls)" for ls
  proof (induction ls)
    case Nil
    then show ?case by simp
  next
    case (Cons l ls)
    show ?case
    proof (cases "contains_tag l")
      case False
      then show ?thesis using Cons by (simp add: convert_line_None)
    next
      case True
      then have "lineRegex_exec (trim l) \<noteq> None"
        using contains_tag_trim contains_tag_iff by simp
      then obtain t m2 where e: "lineRegex_exec (trim l) = Some (t, m2)" by auto
      then have "is_tag t" using lineRegex_exec_Some by blast
      then obtain ts where "to_seconds t = Inr ts" using is_tag_to_seconds by blast
      with e have "\<exists>x. convert_line l = Inr (Some x)" by (simp add: convert_line_def)
      then show ?thesis using Cons True by auto
    qed
  qed
  show "\<exists>doc. parseLrc (Some s) = Inr doc
            \<and> length doc = length (filter contains_tag (split_on CHR 0x0A s))"
    unfolding parseLrc_Some by (simp add: sort_lines_def len)
  have "\<not> contains_tag ''no tag here''"
    by (simp add: contains_tag_iff)
  then show "parseLrc (Some ''no tag here'') = Inr []"
    unfolding parseLrc_Some by (simp add: convert_line_None sort_lines_def)
qed

subsection \<open>The empty response\<close>




subsection \<open>Fenced text\<close>

text \<open>
  Claim C9. When the response that ends the call is successful and its text is a fenced
  block, the opening marker (three backticks and \<open>lrc\<close>), a body and the closing marker
  (three backticks, the first three in a row after the opening marker), the call returns
  the body without the markers, trimmed.
\<close>

theorem transcribe_strips_fence:
  assumes "k < maxRetries" "list_all (\<lambda>j. \<not> succeeds (fetch a m j)) [0..<k]"
    "fetch a m k = Response st (Json e (Some (backticks @ ''lrc'' @ body @ backticks)))"
    "response_ok st" "\<not> has_fence (body @ [CHR 0x60, CHR 0x60])"
  shows "fst (transcribeAudio fetch rnd a m maxRetries) = Returned (trim body)"
proof -
  let ?f = "fetch a m"
  have ne: "backticks @ ''lrc'' @ body @ backticks \<noteq> []"
    by (simp add: backticks_def)
  have "try_block (?f k) (rnd k) maxRetries k
          = Return (trim (strip_fences (backticks @ ''lrc'' @ body @ backticks)))"
    using assms(3,4) ne by (rule try_block_succeeds)
  then have "try_block (?f k) (rnd k) maxRetries k = Return (trim body)"
    by (simp only: strip_fences_fenced[OF assms(5)])
  then have "attempts ?f rnd maxRetries k = (Returned (trim body), [Request k])"
    using assms(1) by (intro attempts_Return)
  moreover obtain pre where
    "attempts ?f rnd maxRetries 0
       = (fst (attempts ?f rnd maxRetries k), pre @ snd (attempts ?f rnd maxRetries k))"
    using reach_from_start[OF assms(1,2)] by blast
  ultimately show ?thesis
    by (simp add: transcribeAudio_def)
qed

theorem transcribe_strips_fence_witness:
  "list_all (\<lambda>j. \<not> succeeds ((\<lambda>a m i. if i = 0 then Response 429 (Json None None)
        else Response 200 (Json None (Some (backticks @ ''lrc'' @ ([CHR 0x0A] @ ''[00:01.00] la'' @ [CHR 0x0A]) @ backticks))))
        ''QUJD'' ''audio/mpeg'' j)) [0..<1]
   \<and> \<not> has_fence (([CHR 0x0A] @ ''[00:01.00] la'' @ [CHR 0x0A]) @ [CHR 0x60, CHR 0x60])
   \<and> fst (transcribeAudio (\<lambda>a m i. if i = 0 then Response 429 (Json None None)
        else Response 200 (Json None (Some (backticks @ ''lrc'' @ ([CHR 0x0A] @ ''[00:01.00] la'' @ [CHR 0x0A]) @ backticks))))
        (\<lambda>i. 1 / 2) ''QUJD'' ''audio/mpeg'' 5) = Returned ''[00:01.00] la''"
proof -
  let ?body = "[CHR 0x0A] @ ''[00:01.00] la'' @ [CHR 0x0A]"
  let ?fetch = "\<lambda>(a::string) (m::string) (i::nat). if i = 0 then Response 429 (Json None None)
        else Response 200 (Json None (Some (backticks @ ''lrc'' @ ?body @ backticks)))"
  have h1: "(1::nat) < 5" by simp
  have h2: "list_all (\<lambda>j. \<not> succeeds (?fetch ''QUJD'' ''audio/mpeg'' j)) [0..<1]"
    by (simp add: succeeds_def)
  have h3: "?fetch ''QUJD'' ''audio/mpeg'' 1
              = Response 200 (Json None (Some (backticks @ ''lrc'' @ ?body @ backticks)))"
    by simp
  have h4: "response_ok 200" by (simp add: response_ok_def)
  have h5: "\<not> has_fence (?body @ [CHR 0x60, CHR 0x60])"
    by (simp add: backticks_def)
  have tr: "trim ?body = ''[00:01.00] la''"
    by (simp add: trim_def is_space_def)
  show ?thesis
    using transcribe_strips_fence[of 1 5 ?fetch "''QUJD''" "''audio/mpeg''" 200 None ?body "\<lambda>i. 1 / 2",
        OF h1 h2 h3 h4 h5] h2 h5
    unfolding tr by blast
qed

subsection \<open>A tag inside a line\<close>



end
